theory Spec2Isabelle
  imports Main "HOL-Library.AList" "HOL-Library.Option_ord"
    "HOL-Library.Char_ord" "HOL-Library.List_Lexorder" "HOL-Library.Product_Lexorder"
begin

section \<open>The BVC download (etl/finalInfoScript.py)\<close>

subsection \<open>Dates\<close>

text \<open>
  A \<^verbatim>\<open>datetime.date\<close> is modelled by its proleptic Gregorian ordinal
  (\<^verbatim>\<open>date.toordinal()\<close>), so that \<^verbatim>\<open>d + timedelta(days=n)\<close> is \<open>d + n\<close> and
  \<^verbatim>\<open>d.weekday()\<close> is \<open>(d + 6) mod 7\<close> (ordinal 1 is Monday 0001-01-01; Monday is 0,
  Saturday 5, Sunday 6). The strings produced by \<^verbatim>\<open>strftime("%Y-%m-%d")\<close> are
  read back as the ordinal they denote; for four-digit years their lexicographic order
  is the order of the ordinals.
\<close>

type_synonym day = int

definition weekday :: "day \<Rightarrow> int" where
  "weekday d = (d + 6) mod 7"

definition MAX_RETRY_DAYS :: nat where
  "MAX_RETRY_DAYS = 7"

text \<open>
  \<^verbatim>\<open>while candidate.weekday() >= 5: candidate += timedelta(days=1)\<close>
\<close>

function skip_weekend :: "day \<Rightarrow> day" where
  "skip_weekend c = (if weekday c \<ge> 5 then skip_weekend (c + 1) else c)"
  by pat_completeness auto
termination
proof (relation "measure (\<lambda>c. nat ((7 - weekday c) mod 7))")
  show "wf (measure (\<lambda>c. nat ((7 - weekday c) mod 7)))" by simp
next
  fix c :: day
  assume "5 \<le> weekday c"
  then have "(7 - weekday (c + 1)) mod 7 < (7 - weekday c) mod 7 \<and> 0 \<le> (7 - weekday (c + 1)) mod 7"
    unfolding weekday_def by presburger
  then show "(c + 1, c) \<in> measure (\<lambda>c. nat ((7 - weekday c) mod 7))" by simp
qed

declare skip_weekend.simps [simp del]



subsection \<open>JSON values and snapshot rows\<close>

text \<open>
  The scalar JSON values of a row. Numbers are carried through the program unchanged,
  so an integer stands for them. A row of the snapshot (a JSON object) is an
  association list; \<^verbatim>\<open>row.get(k)\<close> yields \<^verbatim>\<open>None\<close>, the value of JSON null, for a
  missing key, and \<^verbatim>\<open>row[k]\<close> raises \<^verbatim>\<open>KeyError\<close>. \<open>OSError\<close> stands for whatever
  \<^verbatim>\<open>print_bar\<close> raises (a failing write to the console: \<^verbatim>\<open>BrokenPipeError\<close>, or
  \<^verbatim>\<open>UnicodeEncodeError\<close> on a console that cannot encode the bar).
\<close>

datatype json = JNull | JBool bool | JNum int | JStr string

type_synonym row = "(string \<times> json) list"

datatype py_error = KeyError | OSError

definition get :: "row \<Rightarrow> string \<Rightarrow> json" where
  "get r k = (case map_of r k of None \<Rightarrow> JNull | Some v \<Rightarrow> v)"

subsection \<open>Configuration and shared progress state\<close>

definition BVC_ASSETS :: "(string \<times> string) list" where
  "BVC_ASSETS =
     [(''ECOPETROL'', ''EQTY''), (''ISA'', ''EQTY''), (''GEB'', ''EQTY''),
      (''PFBCOLOM'', ''EQTY''), (''NUTRESA'', ''EQTY''), (''GRUPOSURA'', ''EQTY''),
      (''CELSIA'', ''EQTY''), (''EXITO'', ''EQTY''), (''CEMARGOS'', ''EQTY''),
      (''CNEC'', ''EQTY''), (''CORFICOLCF'', ''EQTY''), (''PROMIGAS'', ''EQTY''),
      (''MINEROS'', ''EQTY''), (''CLH'', ''EQTY''), (''PFDAVVNDA'', ''EQTY'')]"

record progress =
  bvc_done :: nat
  bvc_total :: nat
  bvc_ok :: nat
  bvc_skip :: nat
  bvc_errors :: nat

record hist_record =
  date :: "day option"
  targetDate :: day
  open_price :: json
  high :: json
  low :: json
  close :: json
  volume :: json
  averagePrice :: json
  absoluteVariation :: json
  percentageVariation :: json
  mnemonic :: string
  board :: string

subsection \<open>The day worker\<close>

text \<open>
  One call of \<^verbatim>\<open>fetch_day\<close> either raises (any \<^verbatim>\<open>Exception\<close>: transport, HTTP
  status, malformed JSON) or returns the list of rows. The network is a parameter
  of the model: \<open>fetch delta candidate\<close> is the outcome of the probe number \<open>delta\<close>
  at the date \<open>candidate\<close>.
\<close>

datatype fetched = Raised | Tab "row list"

text \<open>
  The probe loop of \<^verbatim>\<open>worker_day\<close>, with its two variables \<^verbatim>\<open>tab\<close> and
  \<^verbatim>\<open>used_date\<close>; the third component counts the \<^verbatim>\<open>time.sleep(0.3)\<close> pauses of the
  exception handler. A non-empty \<^verbatim>\<open>tab\<close> leaves the loop (\<^verbatim>\<open>break\<close>).
\<close>

fun probe :: "(nat \<Rightarrow> day \<Rightarrow> fetched) \<Rightarrow> day \<Rightarrow> nat list
    \<Rightarrow> row list \<times> day option \<times> nat \<Rightarrow> row list \<times> day option \<times> nat" where
  "probe fetch base [] st = st"
| "probe fetch base (delta # ds) (tab, used_date, naps) =
     (let candidate = skip_weekend (base + int delta) in
      case fetch delta candidate of
        Tab t \<Rightarrow> if t \<noteq> [] then (t, Some candidate, naps)
                 else probe fetch base ds (t, used_date, naps)
      | Raised \<Rightarrow> probe fetch base ds (tab, used_date, naps + 1))"

text \<open>
  \<^verbatim>\<open>idx = {(x["mnemonic"], x["board"]): x for x in tab}\<close>: a later row replaces an
  earlier one with the same key; a row without one of the two fields raises.
\<close>

fun build_idx :: "row list \<Rightarrow> (json \<times> json \<rightharpoonup> row) \<Rightarrow> py_error + (json \<times> json \<rightharpoonup> row)" where
  "build_idx [] idx = Inr idx"
| "build_idx (x # xs) idx =
     (case map_of x ''mnemonic'' of
        None \<Rightarrow> Inl KeyError
      | Some m \<Rightarrow>
          (case map_of x ''board'' of
             None \<Rightarrow> Inl KeyError
           | Some b \<Rightarrow> build_idx xs (idx((m, b) \<mapsto> x))))"

text \<open>
  The loop over \<^verbatim>\<open>BVC_ASSETS\<close> filling \<^verbatim>\<open>result\<close>, a dictionary keyed by the
  mnemonic (kept as an association list in insertion order). \<^verbatim>\<open>if row and ...\<close>
  tests that the row was found and is not the empty object.
\<close>

definition make_record :: "day option \<Rightarrow> day \<Rightarrow> string \<Rightarrow> string \<Rightarrow> row \<Rightarrow> hist_record" where
  "make_record used_date trade_date mn brd r =
     \<lparr> date = used_date, targetDate = trade_date,
       open_price = get r ''openPrice'', high = get r ''maximumPrice'',
       low = get r ''minimumPrice'', close = get r ''lastPrice'',
       volume = get r ''volume'', averagePrice = get r ''averagePrice'',
       absoluteVariation = get r ''absoluteVariation'',
       percentageVariation = get r ''percentageVariation'',
       mnemonic = mn, board = brd \<rparr>"

fun extract_records :: "(json \<times> json \<rightharpoonup> row) \<Rightarrow> day option \<Rightarrow> day \<Rightarrow> (string \<times> string) list
    \<Rightarrow> (string \<times> hist_record) list \<Rightarrow> (string \<times> hist_record) list" where
  "extract_records idx used_date trade_date [] result = result"
| "extract_records idx used_date trade_date ((mn, brd) # rest) result =
     (case idx (JStr mn, JStr brd) of
        None \<Rightarrow> extract_records idx used_date trade_date rest result
      | Some r \<Rightarrow>
          if r \<noteq> [] \<and> get r ''lastPrice'' \<noteq> JNull
          then extract_records idx used_date trade_date rest
                 (AList.update mn (make_record used_date trade_date mn brd r) result)
          else extract_records idx used_date trade_date rest result)"

text \<open>
  \<^verbatim>\<open>print_bar\<close> reads the counters and writes the progress line to the console; it
  changes no state. Whether the write succeeds is the console's doing and a parameter
  of the model: \<open>console\<close> is true when \<^verbatim>\<open>print_bar\<close> returns, false when it raises.
\<close>

definition print_bar :: "bool \<Rightarrow> py_error option" where
  "print_bar console = (if console then None else Some OSError)"

text \<open>
  \<^verbatim>\<open>worker_day\<close>: the value returned (or the exception that leaves the function) and
  the progress counters after the call. The counter updates are made under
  \<^verbatim>\<open>print_lock\<close>, so each is one atomic step on the shared record. On both paths
  \<^verbatim>\<open>print_bar\<close> is called after the update and outside any \<^verbatim>\<open>try\<close>: when it raises,
  the worker ends in that exception with its counters already updated.
\<close>

definition worker_day :: "(nat \<Rightarrow> day \<Rightarrow> fetched) \<Rightarrow> bool \<Rightarrow> day \<Rightarrow> progress
    \<Rightarrow> (py_error + (string \<times> hist_record) list) \<times> progress" where
  "worker_day fetch console trade_date p =
     (case probe fetch trade_date [0..<MAX_RETRY_DAYS] ([], None, 0) of
        (tab, used_date, naps) \<Rightarrow>
          if tab = []
          then (case print_bar console of
                  Some e \<Rightarrow> Inl e
                | None \<Rightarrow> Inr [],
                p\<lparr>bvc_skip := bvc_skip p + 1, bvc_done := bvc_done p + 1\<rparr>)
          else (case build_idx tab Map.empty of
                  Inl e \<Rightarrow> (Inl e, p)
                | Inr idx \<Rightarrow>
                    (let result = extract_records idx used_date trade_date BVC_ASSETS [] in
                     (case print_bar console of
                        Some e \<Rightarrow> Inl e
                      | None \<Rightarrow> Inr result,
                      p\<lparr>bvc_ok := bvc_ok p + length result, bvc_done := bvc_done p + 1\<rparr>))))"

subsection \<open>The orchestrator (the BVC phase of main)\<close>

text \<open>
  \<^verbatim>\<open>all_results\<close> maps each tracked mnemonic to its list of records, in the order
  of \<^verbatim>\<open>BVC_ASSETS\<close>. \<^verbatim>\<open>all_results[mn].append(record)\<close> raises \<^verbatim>\<open>KeyError\<close>
  inside the \<^verbatim>\<open>try\<close> block for an unknown mnemonic; the records appended before
  stay appended.
\<close>

type_synonym all_results = "(string \<times> hist_record list) list"

fun merge_day :: "(string \<times> hist_record) list \<Rightarrow> all_results \<Rightarrow> py_error option \<times> all_results" where
  "merge_day [] acc = (None, acc)"
| "merge_day ((mn, r) # items) acc =
     (case map_of acc mn of
        None \<Rightarrow> (Some KeyError, acc)
      | Some rs \<Rightarrow> merge_day items (AList.update mn (rs @ [r]) acc))"

text \<open>
  The body of \<^verbatim>\<open>for future in as_completed(futures)\<close>: \<^verbatim>\<open>future.result()\<close>
  returns the worker's dictionary or re-raises the exception that ended the worker;
  the handler of \<^verbatim>\<open>except Exception\<close> adds one to \<^verbatim>\<open>bvc_errors\<close> and nothing else.
\<close>

definition handle_future :: "py_error + (string \<times> hist_record) list
    \<Rightarrow> all_results \<times> progress \<Rightarrow> all_results \<times> progress" where
  "handle_future out st =
     (case st of (acc, p) \<Rightarrow>
        (case out of
           Inl e \<Rightarrow> (acc, p\<lparr>bvc_errors := bvc_errors p + 1\<rparr>)
         | Inr day_result \<Rightarrow>
             (case merge_day day_result acc of
                (None, acc') \<Rightarrow> (acc', p)
              | (Some e, acc') \<Rightarrow> (acc', p\<lparr>bvc_errors := bvc_errors p + 1\<rparr>))))"

text \<open>
  The pool runs one \<^verbatim>\<open>worker_day\<close> per date. The only shared state is the
  progress record, updated under \<^verbatim>\<open>print_lock\<close> by increments, and
  \<^verbatim>\<open>all_results\<close>, appended to by the main thread alone in the order in which
  \<^verbatim>\<open>as_completed\<close> yields the futures. A run is therefore given by that order
  \<open>order\<close>, any arrangement of the dispatched dates; \<open>fetch d\<close> is the network and
  \<open>console d\<close> the console as the task of date \<open>d\<close> sees them.
\<close>

fun bvc_phase :: "(day \<Rightarrow> nat \<Rightarrow> day \<Rightarrow> fetched) \<Rightarrow> (day \<Rightarrow> bool) \<Rightarrow> day list
    \<Rightarrow> all_results \<times> progress \<Rightarrow> all_results \<times> progress" where
  "bvc_phase fetch console [] st = st"
| "bvc_phase fetch console (d # ds) (acc, p) =
     (case worker_day (fetch d) (console d) d p of
        (out, p') \<Rightarrow> bvc_phase fetch console ds (handle_future out (acc, p')))"

text \<open>
  \<^verbatim>\<open>main\<close> up to the files of the BVC assets: the counters start at zero with
  \<^verbatim>\<open>bvc_total = len(all_days)\<close>, every list starts empty, and before
  \<^verbatim>\<open>save_json\<close> each list is sorted (stably) by its \<^verbatim>\<open>"date"\<close> field.
\<close>

definition main_bvc :: "(day \<Rightarrow> nat \<Rightarrow> day \<Rightarrow> fetched) \<Rightarrow> (day \<Rightarrow> bool) \<Rightarrow> day list
    \<Rightarrow> all_results \<times> progress" where
  "main_bvc fetch console order =
     (case bvc_phase fetch console order
             (map (\<lambda>(mn, brd). (mn, [])) BVC_ASSETS,
              \<lparr>bvc_done = 0, bvc_total = length order, bvc_ok = 0, bvc_skip = 0, bvc_errors = 0\<rparr>) of
        (acc, p) \<Rightarrow> (map (\<lambda>(mn, records). (mn, sort_key date records)) acc, p))"

section \<open>The Yahoo download (etl/finalInfoScript.py)\<close>

subsection \<open>Sessions, responses and the shared state\<close>

text \<open>
  A \<^verbatim>\<open>requests.Session\<close> made by \<^verbatim>\<open>yahoo_init_session\<close> is identified by the number
  of sessions made before it. What the servers answer is a parameter of the model:
  \<open>crumb_of s\<close> is the crumb the handshake of session \<open>s\<close> obtains (\<^verbatim>\<open>None\<close> when all
  six attempts fail), \<open>chart n s c t\<close> the answer to the chart request number \<open>n\<close> of the
  run, sent with session \<open>s\<close> and crumb \<open>c\<close> for ticker \<open>t\<close>, and \<open>download n s c t\<close> the
  answer of the CSV endpoint. An answer is either no response (\<^verbatim>\<open>session.get\<close> raises)
  or a status code with the records the body parses to (\<^verbatim>\<open>None\<close> when reading the
  body raises).
\<close>

type_synonym session = nat

datatype response = NoResponse | Response nat "row list option"

record yahoo_env =
  crumb_of :: "session \<Rightarrow> string option"
  chart :: "nat \<Rightarrow> session \<Rightarrow> string option \<Rightarrow> string \<Rightarrow> response"
  download :: "nat \<Rightarrow> session \<Rightarrow> string option \<Rightarrow> string \<Rightarrow> response"

text \<open>
  The module globals \<^verbatim>\<open>_yahoo_session\<close> and \<^verbatim>\<open>_yahoo_crumb\<close>, and three counters that
  observe the run: the sessions made, the requests sent to the two data endpoints, and
  the renewals, the calls of \<^verbatim>\<open>yahoo_init_session\<close> made after a 401 or 403.
\<close>

record yworld =
  yahoo_session :: "session option"
  yahoo_crumb :: "string option"
  sessions_made :: nat
  requests_sent :: nat
  renewals :: nat

definition YAHOO_ASSETS :: "string list" where
  "YAHOO_ASSETS = [''VOO'', ''CSPX.L'', ''SPY'', ''QQQ'', ''IVV'', ''GLD'']"

definition yahoo_init_session :: "yahoo_env \<Rightarrow> yworld \<Rightarrow> (session \<times> string option) \<times> yworld" where
  "yahoo_init_session env w =
     ((sessions_made w, crumb_of env (sessions_made w)),
      w\<lparr>sessions_made := sessions_made w + 1\<rparr>)"


text \<open>
  \<^verbatim>\<open>r.raise_for_status()\<close> raises for a status from 400 to 599. The records of a chart
  answer, as \<^verbatim>\<open>_yahoo_v8_json\<close> returns them after \<^verbatim>\<open>raise_for_status\<close> and the reading
  of the body, and of a CSV answer, as \<^verbatim>\<open>_yahoo_v7_csv\<close> returns them: the empty list
  whenever an exception is caught.
\<close>

definition http_error :: "nat \<Rightarrow> bool" where
  "http_error status \<longleftrightarrow> 400 \<le> status \<and> status < 600"

definition records_of :: "response \<Rightarrow> row list" where
  "records_of r =
     (case r of
        NoResponse \<Rightarrow> []
      | Response status body \<Rightarrow>
          if http_error status then []
          else (case body of None \<Rightarrow> [] | Some rs \<Rightarrow> rs))"

definition auth_failure :: "response \<Rightarrow> bool" where
  "auth_failure r = (case r of NoResponse \<Rightarrow> False | Response status body \<Rightarrow> status = 401 \<or> status = 403)"

subsection \<open>One ticker download, step by step\<close>

text \<open>
  The pool runs \<^verbatim>\<open>download_yahoo_ticker\<close> for several tickers at once, so one call is
  cut at the points where it touches the network or the globals:
  \<^item> \<open>Start\<close>: \<^verbatim>\<open>session, crumb = yahoo_init_session()\<close>, the ticker's own handshake;
  \<^item> \<open>FirstGet\<close>: the first \<^verbatim>\<open>session.get(url)\<close> of \<^verbatim>\<open>_yahoo_v8_json\<close>;
  \<^item> \<open>Renew\<close>: after a 401 or 403, \<^verbatim>\<open>_yahoo_session, _yahoo_crumb = yahoo_init_session()\<close>
    under \<^verbatim>\<open>_yahoo_crumb_lock\<close>;
  \<^item> \<open>Retry\<close>: \<^verbatim>\<open>session, crumb = _yahoo_session, _yahoo_crumb\<close>, read after the lock
    is released, and the second \<^verbatim>\<open>session.get(url)\<close>;
  \<^item> \<open>Fallback\<close>: \<^verbatim>\<open>_yahoo_v7_csv\<close> with the ticker's own session and crumb, when
    \<^verbatim>\<open>_yahoo_v8_json\<close> returned no records;
  \<^item> \<open>Done\<close>: the call has returned \<open>records\<close>.
  A thread also records whether its first answer was a 401 or 403 and how many chart
  requests it has sent. Before \<open>Start\<close> the two locals are not bound; the values given
  to them in the initial state are never read.
\<close>

datatype pc = Start | FirstGet | Renew | Retry | Fallback | Done

record thread =
  ticker :: string
  pc :: pc
  session :: session
  crumb :: "string option"
  auth_failed :: bool
  charts :: nat
  records :: "row list"

text \<open>
  The end of \<^verbatim>\<open>_yahoo_v8_json\<close> and the test \<^verbatim>\<open>if not records\<close> of its caller.
\<close>

definition after_chart :: "thread \<Rightarrow> response \<Rightarrow> thread" where
  "after_chart t r =
     (if records_of r = [] then t\<lparr>pc := Fallback, records := []\<rparr>
      else t\<lparr>pc := Done, records := records_of r\<rparr>)"

definition thread_step :: "yahoo_env \<Rightarrow> thread \<Rightarrow> yworld \<Rightarrow> thread \<times> yworld" where
  "thread_step env t w =
     (case pc t of
        Start \<Rightarrow>
          (case yahoo_init_session env w of
             ((s, c), w') \<Rightarrow> (t\<lparr>pc := FirstGet, session := s, crumb := c\<rparr>, w'))
      | FirstGet \<Rightarrow>
          (let r = chart env (requests_sent w) (session t) (crumb t) (ticker t);
               w' = w\<lparr>requests_sent := requests_sent w + 1\<rparr>;
               t' = t\<lparr>charts := charts t + 1\<rparr>
           in if auth_failure r then (t'\<lparr>pc := Renew, auth_failed := True\<rparr>, w')
              else (after_chart t' r, w'))
      | Renew \<Rightarrow>
          (case yahoo_init_session env w of
             ((s, c), w') \<Rightarrow>
               (t\<lparr>pc := Retry\<rparr>,
                w'\<lparr>yahoo_session := Some s, yahoo_crumb := c, renewals := renewals w + 1\<rparr>))
      | Retry \<Rightarrow>
          (case yahoo_session w of
             None \<Rightarrow> (t\<lparr>pc := Fallback, records := []\<rparr>, w)
           | Some s \<Rightarrow>
               (let r = chart env (requests_sent w) s (yahoo_crumb w) (ticker t);
                    w' = w\<lparr>requests_sent := requests_sent w + 1\<rparr>
                in (after_chart (t\<lparr>charts := charts t + 1\<rparr>) r, w')))
      | Fallback \<Rightarrow>
          (let r = download env (requests_sent w) (session t) (crumb t) (ticker t)
           in (t\<lparr>pc := Done, records := records_of r\<rparr>,
               w\<lparr>requests_sent := requests_sent w + 1\<rparr>))
      | Done \<Rightarrow> (t, w))"

subsection \<open>The pool\<close>

text \<open>
  A run of the Yahoo phase is a schedule: the list of the thread numbers in the order
  in which the threads take their steps. Every step above is atomic (it is one network
  exchange of one thread, or it runs under the lock), so every run of the pool is the
  run of some schedule. A number outside the pool, or of a thread that has returned,
  changes nothing.
\<close>

definition sched_step :: "yahoo_env \<Rightarrow> yworld \<times> thread list \<Rightarrow> nat \<Rightarrow> yworld \<times> thread list" where
  "sched_step env cfg i =
     (case cfg of (w, ts) \<Rightarrow>
        if i < length ts
        then (case thread_step env (ts ! i) w of (t', w') \<Rightarrow> (w', ts[i := t']))
        else (w, ts))"

definition run :: "yahoo_env \<Rightarrow> nat list \<Rightarrow> yworld \<times> thread list \<Rightarrow> yworld \<times> thread list" where
  "run env schedule cfg = foldl (sched_step env) cfg schedule"



section \<open>Storage (etl/storage.py)\<close>

text \<open>
  A document is a JSON object, kept as an association list in field order; a
  collection is the list of its documents in insertion order. The \<^verbatim>\<open>_id\<close> that the
  server adds to an inserted document is left out: no code of the repository reads it,
  and every query of the read API projects it away.
\<close>

type_synonym doc = "(string \<times> json) list"

type_synonym collection = "doc list"

text \<open>
  The \<^verbatim>\<open>date\<close> of a document (null when the field is missing), Python truth of a
  JSON value, and \<^verbatim>\<open>load_json\<close>: the records of a file that have a
  \<^verbatim>\<open>date\<close> which is not null, zero, false or empty.
\<close>

definition date_of :: "doc \<Rightarrow> json" where
  "date_of d = get d ''date''"

definition truthy :: "json \<Rightarrow> bool" where
  "truthy v = (case v of JNull \<Rightarrow> False | JBool b \<Rightarrow> b | JNum n \<Rightarrow> n \<noteq> 0 | JStr s \<Rightarrow> s \<noteq> [])"

definition load_json :: "doc list \<Rightarrow> doc list" where
  "load_json file_data = filter (\<lambda>r. truthy (date_of r)) file_data"

text \<open>
  \<^verbatim>\<open>UpdateOne(filter={"date": v}, update={"$set": rec}, upsert=True)\<close> as MongoDB
  documents it: the filter selects the first document whose \<^verbatim>\<open>date\<close> equals \<open>v\<close> (a
  missing field equals null); \<^verbatim>\<open>$set\<close> writes every field of \<open>rec\<close> into it, replacing
  the value of a field it has and appending a field it lacks; when no document
  matches, a new one is inserted, made of the filter's field and the fields of \<open>rec\<close>.
  \<^verbatim>\<open>upserted_count\<close> counts the insertions, \<^verbatim>\<open>modified_count\<close> the matched documents
  that the write changed. The place a new field takes among the fields of a document
  is not modelled; nothing below depends on it.
\<close>

definition set_fields :: "doc \<Rightarrow> doc \<Rightarrow> doc" where
  "set_fields d rec = AList.merge d rec"

definition matches :: "json \<Rightarrow> doc \<Rightarrow> bool" where
  "matches v d \<longleftrightarrow> date_of d = v"

fun update_first :: "json \<Rightarrow> doc \<Rightarrow> collection \<Rightarrow> collection option" where
  "update_first v rec [] = None"
| "update_first v rec (d # ds) =
     (if matches v d then Some (set_fields d rec # ds)
      else map_option ((#) d) (update_first v rec ds))"

record summary =
  upserted :: nat
  modified :: nat

definition update_one :: "collection \<times> summary \<Rightarrow> json \<times> doc \<Rightarrow> collection \<times> summary" where
  "update_one st op =
     (case st of (c, s) \<Rightarrow>
        (case op of (v, rec) \<Rightarrow>
           (case update_first v rec c of
              None \<Rightarrow> (c @ [set_fields [(''date'', v)] rec], s\<lparr>upserted := upserted s + 1\<rparr>)
            | Some c' \<Rightarrow> (c', if c' = c then s else s\<lparr>modified := modified s + 1\<rparr>))))"

text \<open>
  \<^verbatim>\<open>collection.bulk_write(operations, ordered=False)\<close> runs every operation; the
  server may take them in another order than the list's. The operations are run here
  in the order of the list; what is proved below of one call depends on the set of the
  records only, or is said of calls that follow one another.
\<close>

definition bulk_write :: "(json \<times> doc) list \<Rightarrow> collection \<Rightarrow> collection \<times> summary" where
  "bulk_write ops c = foldl update_one (c, \<lparr>upserted = 0, modified = 0\<rparr>) ops"

text \<open>
  The list comprehension of \<^verbatim>\<open>upsert_records\<close>: \<^verbatim>\<open>rec["date"]\<close> raises \<^verbatim>\<open>KeyError\<close>
  for a record without the field, before anything is written.
\<close>

fun operations :: "doc list \<Rightarrow> py_error + (json \<times> doc) list" where
  "operations [] = Inr []"
| "operations (rec # recs) =
     (case map_of rec ''date'' of
        None \<Rightarrow> Inl KeyError
      | Some v \<Rightarrow>
          (case operations recs of
             Inl e \<Rightarrow> Inl e
           | Inr ops \<Rightarrow> Inr ((v, rec) # ops)))"

definition upsert_records :: "collection \<Rightarrow> doc list \<Rightarrow> py_error + collection \<times> summary" where
  "upsert_records c recs =
     (if recs = [] then Inr (c, \<lparr>upserted = 0, modified = 0\<rparr>)
      else (case operations recs of
              Inl e \<Rightarrow> Inl e
            | Inr ops \<Rightarrow> Inr (bulk_write ops c)))"

text \<open>
  What \<^verbatim>\<open>upload_historicos\<close> does to one collection over the runs of the script: each
  run upserts the valid records of the security's file. A collection that only this
  script writes is \<open>stored files\<close> for the list of the file contents of the runs so far.
\<close>

definition upload :: "collection \<Rightarrow> doc list \<Rightarrow> collection" where
  "upload c file_data =
     (case upsert_records c (load_json file_data) of Inl e \<Rightarrow> c | Inr (c', s) \<Rightarrow> c')"

definition stored :: "doc list list \<Rightarrow> collection" where
  "stored files = foldl upload [] files"

section \<open>The read API (routers/historicos.py)\<close>

text \<open>
  \<^verbatim>\<open>str.lower\<close> and \<^verbatim>\<open>str.upper\<close> belong to Python's library and follow the Unicode
  tables (they may even change the length of a string). The handlers take them as
  given: a \<open>pystr\<close> holds the two functions, and nothing below assumes anything about
  them. \<open>ascii\<close> is what they do to ASCII text, where the 26 letters change case and
  every other character stays; the examples are run with it.
\<close>

record pystr =
  lower :: "string \<Rightarrow> string"
  upper :: "string \<Rightarrow> string"

definition lower_char :: "char \<Rightarrow> char" where
  "lower_char c = (if 65 \<le> (of_char c :: nat) \<and> (of_char c :: nat) \<le> 90 then char_of (of_char c + 32 :: nat) else c)"

definition upper_char :: "char \<Rightarrow> char" where
  "upper_char c = (if 97 \<le> (of_char c :: nat) \<and> (of_char c :: nat) \<le> 122 then char_of (of_char c - 32 :: nat) else c)"

definition ascii :: pystr where
  "ascii = \<lparr>lower = map lower_char, upper = map upper_char\<rparr>"

definition KNOWN_MNEMONICS :: "string list" where
  "KNOWN_MNEMONICS = [''ecopetrol'', ''geb'', ''isa'', ''pfbcolom'']"

definition collection_name :: "pystr \<Rightarrow> string \<Rightarrow> string" where
  "collection_name py mnem = ''historico_'' @ lower py mnem"

fun join :: "string \<Rightarrow> string list \<Rightarrow> string" where
  "join sep [] = []"
| "join sep [x] = x"
| "join sep (x # y # ys) = x @ sep @ join sep (y # ys)"

text \<open>
  \<^verbatim>\<open>c.startswith(p)\<close>, and \<^verbatim>\<open>c.replace(old, new)\<close> for a non-empty \<open>old\<close>: every
  occurrence found from left to right is replaced, the search going on after it.
\<close>

definition startswith :: "string \<Rightarrow> string \<Rightarrow> bool" where
  "startswith s p \<longleftrightarrow> take (length p) s = p"

function replace :: "string \<Rightarrow> string \<Rightarrow> string \<Rightarrow> string" where
  "replace old new [] = []"
| "replace old new (c # cs) =
     (if old \<noteq> [] \<and> startswith (c # cs) old
      then new @ replace old new (drop (length old) (c # cs))
      else c # replace old new cs)"
  by pat_completeness auto
termination
  by (relation "measure (\<lambda>(old, new, s). length s)") (auto simp: neq_Nil_conv)

text \<open>
  The database is the list of its collections, each with its name, in the order of
  \<^verbatim>\<open>db.list_collection_names()\<close>; \<^verbatim>\<open>db[name]\<close> is the collection of that name. An error
  response is the \<^verbatim>\<open>HTTPException\<close> a handler raises, or the rejection of a query
  parameter by the framework (\<^verbatim>\<open>Query(None, ge=1)\<close>, status 422) before the handler
  runs.
\<close>

type_synonym database = "(string \<times> collection) list"

definition list_collection_names :: "database \<Rightarrow> string list" where
  "list_collection_names db = map fst db"

datatype api_error = HTTPException nat string | RequestValidationError

definition status_code :: "api_error \<Rightarrow> nat" where
  "status_code e = (case e of HTTPException n detail \<Rightarrow> n | RequestValidationError \<Rightarrow> 422)"

record historico_response =
  resp_mnemonic :: string
  resp_total :: nat
  resp_desde :: "string option"
  resp_hasta :: "string option"
  resp_data :: "doc list"

text \<open>
  \<^verbatim>\<open>list_mnemonics\<close>: the names of the collections that start with \<^verbatim>\<open>historico_\<close>, with
  that text removed, upper-cased and sorted.
\<close>

definition list_mnemonics :: "pystr \<Rightarrow> database \<Rightarrow> string list" where
  "list_mnemonics py db =
     sort (map (\<lambda>c. upper py (replace ''historico_'' [] c))
             (filter (\<lambda>c. startswith c ''historico_'') (list_collection_names db)))"

text \<open>
  The order of \<^verbatim>\<open>.sort("date", 1)\<close>: MongoDB compares values of different types by
  type (null and missing, then numbers, then strings, then booleans), numbers by
  value and strings byte by byte. The query \<^verbatim>\<open>{"date": {"$gte": desde, "$lte": hasta}}\<close>
  selects the documents whose \<^verbatim>\<open>date\<close> is a string within the bounds given; an empty
  bound is no bound (\<^verbatim>\<open>if desde:\<close>). The projection \<^verbatim>\<open>{"_id": 0}\<close> drops that field.
\<close>

definition bson_key :: "json \<Rightarrow> nat \<times> int \<times> string" where
  "bson_key v =
     (case v of
        JNull \<Rightarrow> (1, 0, [])
      | JNum n \<Rightarrow> (2, n, [])
      | JStr s \<Rightarrow> (3, 0, s)
      | JBool b \<Rightarrow> (8, if b then 1 else 0, []))"

definition given :: "string option \<Rightarrow> bool" where
  "given bound = (case bound of None \<Rightarrow> False | Some s \<Rightarrow> s \<noteq> [])"

definition in_query :: "string option \<Rightarrow> string option \<Rightarrow> doc \<Rightarrow> bool" where
  "in_query desde hasta d =
     (if given desde \<or> given hasta
      then (case date_of d of
              JStr s \<Rightarrow> (given desde \<longrightarrow> the desde \<le> s) \<and> (given hasta \<longrightarrow> s \<le> the hasta)
            | _ \<Rightarrow> False)
      else True)"

definition find_sorted :: "collection \<Rightarrow> string option \<Rightarrow> string option \<Rightarrow> doc list" where
  "find_sorted c desde hasta =
     sort_key (\<lambda>d. bson_key (date_of d))
       (map (AList.delete ''_id'') (filter (in_query desde hasta) c))"

definition not_found_detail :: "pystr \<Rightarrow> string \<Rightarrow> string" where
  "not_found_detail py mnem =
     ''No se encontr'' @ [CHR 0xC3, CHR 0xB3] @ '' informaci'' @ [CHR 0xC3, CHR 0xB3]
       @ ''n para el mnem'' @ [CHR 0xC3, CHR 0xB3] @ ''nico '' @ [CHR 0x27] @ upper py mnem @ [CHR 0x27]
       @ ''. Disponibles: '' @ join '', '' (map (upper py) KNOWN_MNEMONICS)"

text \<open>
  \<^verbatim>\<open>get_historico\<close>. The test \<^verbatim>\<open>col_name not in db.list_collection_names()\<close> fails
  exactly when \<^verbatim>\<open>db[col_name]\<close> is a collection of the list.
\<close>

definition get_historico :: "pystr \<Rightarrow> database \<Rightarrow> string \<Rightarrow> string option \<Rightarrow> string option
    \<Rightarrow> int option \<Rightarrow> api_error + historico_response" where
  "get_historico py db mnem desde hasta limit =
     (if (case limit of None \<Rightarrow> False | Some n \<Rightarrow> n < 1) then Inl RequestValidationError
      else (case map_of db (collection_name py mnem) of
              None \<Rightarrow> Inl (HTTPException 404 (not_found_detail py mnem))
            | Some c \<Rightarrow>
                (let has_date_filter = given desde \<or> given hasta;
                     effective_limit =
                       (case limit of Some n \<Rightarrow> Some n
                        | None \<Rightarrow> if has_date_filter then None else Some 100);
                     cursor = find_sorted c desde hasta;
                     recs = (case effective_limit of None \<Rightarrow> cursor | Some n \<Rightarrow> take (nat n) cursor)
                 in Inr \<lparr>resp_mnemonic = upper py mnem, resp_total = length recs,
                         resp_desde = desde, resp_hasta = hasta, resp_data = recs\<rparr>)))"

definition get_historico_by_date :: "pystr \<Rightarrow> database \<Rightarrow> string \<Rightarrow> string \<Rightarrow> api_error + doc" where
  "get_historico_by_date py db mnem day_str =
     (case map_of db (collection_name py mnem) of
        None \<Rightarrow>
          Inl (HTTPException 404
                 (''No se encontr'' @ [CHR 0xC3, CHR 0xB3] @ '' informaci'' @ [CHR 0xC3, CHR 0xB3]
                    @ ''n para '' @ [CHR 0x27] @ upper py mnem @ [CHR 0x27] @ ''.''))
      | Some c \<Rightarrow>
          (case find (\<lambda>d. date_of d = JStr day_str) c of
             None \<Rightarrow>
               Inl (HTTPException 404
                      (''No hay registro para '' @ upper py mnem @ '' en la fecha '' @ day_str @ ''.''))
           | Some d \<Rightarrow>
               if AList.delete ''_id'' d = []
               then Inl (HTTPException 404
                      (''No hay registro para '' @ upper py mnem @ '' en la fecha '' @ day_str @ ''.''))
               else Inr (AList.delete ''_id'' d)))"

text \<open>
  The router tries its routes in the order of their declaration and matches a path
  exactly, case included. \<^verbatim>\<open>/mnemonics\<close> is declared before \<^verbatim>\<open>/{mnemonic}\<close>: the
  request \<^verbatim>\<open>GET /historicos/mnemonics\<close> is answered by \<^verbatim>\<open>list_mnemonics\<close>, which reads no
  query parameter, and every other path of one segment by \<^verbatim>\<open>get_historico\<close>. A path of
  two segments is answered by \<^verbatim>\<open>get_historico_by_date\<close>.
\<close>

datatype api_response = Mnemonics "string list" | Historico historico_response

definition get_one_segment :: "pystr \<Rightarrow> database \<Rightarrow> string \<Rightarrow> string option \<Rightarrow> string option
    \<Rightarrow> int option \<Rightarrow> api_error + api_response" where
  "get_one_segment py db segment desde hasta limit =
     (if segment = ''mnemonics'' then Inr (Mnemonics (list_mnemonics py db))
      else map_sum id Historico (get_historico py db segment desde hasta limit))"

section \<open>Invariants used in the proofs\<close>

text \<open>
  The invariant of the accumulators used below: every accumulated record carries a
  resolved date and the mnemonic of the list it is in.
\<close>

definition well_dated :: "all_results \<Rightarrow> bool" where
  "well_dated acc \<longleftrightarrow> (\<forall>(mn, rs) \<in> set acc. \<forall>r \<in> set rs. date r \<noteq> None \<and> mnemonic r = mn)"

text \<open>
  A day task raises before its counter update exactly when the indexing of its
  non-empty snapshot raises: what a fetch raises is caught in the probe loop, and the
  extraction raises nothing.
\<close>

definition raises_before_count :: "(nat \<Rightarrow> day \<Rightarrow> fetched) \<Rightarrow> day \<Rightarrow> bool" where
  "raises_before_count fetch trade_date \<longleftrightarrow>
     (case probe fetch trade_date [0..<MAX_RETRY_DAYS] ([], None, 0) of
        (tab, used_date, naps) \<Rightarrow> tab \<noteq> [] \<and> isl (build_idx tab Map.empty))"




text \<open>
  A stored document agrees with a record when it has every field of the record with
  the record's value.
\<close>

definition agrees :: "doc \<Rightarrow> doc \<Rightarrow> bool" where
  "agrees d rec \<longleftrightarrow> (\<forall>k x. map_of rec k = Some x \<longrightarrow> map_of d k = Some x)"

text \<open>
  What two answers of the API are compared by: an error by its HTTP status, a body
  without the mnemonic it echoes.
\<close>

definition without_echo :: "api_response \<Rightarrow> api_response" where
  "without_echo r =
     (case r of Mnemonics ms \<Rightarrow> Mnemonics ms | Historico h \<Rightarrow> Historico (h\<lparr>resp_mnemonic := []\<rparr>))"

definition outcome :: "api_error + api_response \<Rightarrow> nat + api_response" where
  "outcome answer = map_sum status_code without_echo answer"


section \<open>Properties of the day worker\<close>

subsection \<open>Weekend skipping and the probe loop\<close>

lemma weekday_range: "0 \<le> weekday c" "weekday c < 7"
  by (simp_all add: weekday_def)

lemma weekday_after_sunday: "weekday c = 6 \<Longrightarrow> weekday (c + 1) = 0"
  unfolding weekday_def by presburger

lemma weekday_after_saturday: "weekday c = 5 \<Longrightarrow> weekday (c + 1) = 6"
  unfolding weekday_def by presburger

lemma weekday_two_after_saturday: "weekday c = 5 \<Longrightarrow> weekday (c + 2) = 0"
  unfolding weekday_def by presburger

text \<open>The loop adds two days to a Saturday, one to a Sunday and nothing otherwise.\<close>

lemma skip_weekend_cases:
  "skip_weekend c = (if weekday c = 5 then c + 2 else if weekday c = 6 then c + 1 else c)"
proof -
  consider "weekday c = 5" | "weekday c = 6" | "weekday c < 5" using weekday_range [of c] by linarith
  then show ?thesis
  proof cases
    case 1
    have "skip_weekend c = skip_weekend (c + 1)" using 1 by (subst skip_weekend.simps) simp
    also have "\<dots> = skip_weekend (c + 2)"
      using weekday_after_saturday [OF 1] by (subst skip_weekend.simps) (simp add: ac_simps)
    also have "\<dots> = c + 2" using weekday_two_after_saturday [OF 1] by (subst skip_weekend.simps) simp
    finally show ?thesis using 1 by simp
  next
    case 2
    have "skip_weekend c = skip_weekend (c + 1)" using 2 by (subst skip_weekend.simps) simp
    also have "\<dots> = c + 1" using weekday_after_sunday [OF 2] by (subst skip_weekend.simps) simp
    finally show ?thesis using 2 by simp
  next
    case 3
    then show ?thesis by (subst skip_weekend.simps) simp
  qed
qed




text \<open>
  The bound needs a weekday target: from a Sunday the seventh probe lands on the
  Saturday six days later and is moved to the Monday after it, eight days away.
  \<^verbatim>\<open>main\<close> never dispatches such a date.
\<close>

lemma sunday_overshoot: "weekday 7 = 6 \<and> skip_weekend (7 + 6) - 7 = 8"
  by (simp add: skip_weekend_cases weekday_def)



lemma probe_found:
  "probe fetch base ds ([], used, naps) = (tab', used', naps') \<Longrightarrow> tab' \<noteq> [] \<Longrightarrow>
     \<exists>delta \<in> set ds. used' = Some (skip_weekend (base + int delta))
        \<and> fetch delta (skip_weekend (base + int delta)) = Tab tab'"
proof (induction ds arbitrary: naps)
  case Nil
  then show ?case by simp
next
  case (Cons delta ds)
  show ?case
  proof (cases "fetch delta (skip_weekend (base + int delta))")
    case Raised
    with Cons.prems have "probe fetch base ds ([], used, naps + 1) = (tab', used', naps')"
      by simp
    from Cons.IH [OF this Cons.prems(2)] show ?thesis by auto
  next
    case (Tab t)
    show ?thesis
    proof (cases "t = []")
      case True
      with Tab Cons.prems have "probe fetch base ds ([], used, naps) = (tab', used', naps')"
        by simp
      from Cons.IH [OF this Cons.prems(2)] show ?thesis by auto
    next
      case False
      with Tab Cons.prems show ?thesis by auto
    qed
  qed
qed

lemma probe_no_data:
  "\<forall>delta \<in> set ds. fetch delta (skip_weekend (base + int delta)) \<in> {Raised, Tab []} \<Longrightarrow>
     probe fetch base ds ([], used, naps) =
       ([], used, naps + length (filter (\<lambda>delta. fetch delta (skip_weekend (base + int delta)) = Raised) ds))"
proof (induction ds arbitrary: naps)
  case Nil
  then show ?case by simp
next
  case (Cons delta ds)
  then show ?case by (cases "fetch delta (skip_weekend (base + int delta))") auto
qed

lemma probe_empty_unused:
  "probe fetch base ds ([], used, naps) = (tab', used', naps') \<Longrightarrow> tab' = [] \<Longrightarrow> used' = used"
proof (induction ds arbitrary: naps)
  case Nil
  then show ?case by simp
next
  case (Cons delta ds)
  then show ?case
    by (cases "fetch delta (skip_weekend (base + int delta))") (auto split: if_splits)
qed

lemma set_update_subset: "set (AList.update k v al) \<subseteq> insert (k, v) (set al)"
  by (induction al) auto

lemma extract_records_fields:
  "(mn, r) \<in> set (extract_records idx used t assets res0) \<Longrightarrow>
     (mn, r) \<in> set res0 \<or> (date r = used \<and> targetDate r = t \<and> mnemonic r = mn)"
proof (induction assets arbitrary: res0)
  case Nil
  then show ?case by simp
next
  case (Cons a assets)
  obtain m b where a: "a = (m, b)" by (cases a)
  show ?case
  proof (cases "idx (JStr m, JStr b)")
    case None
    with Cons a show ?thesis by simp
  next
    case (Some row)
    show ?thesis
    proof (cases "row \<noteq> [] \<and> get row ''lastPrice'' \<noteq> JNull")
      case True
      with Cons.prems a Some
      have "(mn, r) \<in> set (extract_records idx used t assets
               (AList.update m (make_record used t m b row) res0))" by simp
      from Cons.IH [OF this] show ?thesis
        using set_update_subset [of m "make_record used t m b row" res0]
        by (auto simp: make_record_def)
    next
      case False
      with Cons a Some show ?thesis by auto
    qed
  qed
qed

lemma worker_day_records:
  assumes "worker_day fetch console t p = (Inr res, p')" "(mn, r) \<in> set res"
  shows "\<exists>tab c naps. probe fetch t [0..<MAX_RETRY_DAYS] ([], None, 0) = (tab, Some c, naps)
           \<and> tab \<noteq> [] \<and> date r = Some c \<and> targetDate r = t \<and> mnemonic r = mn"
proof -
  obtain tab used naps where pr: "probe fetch t [0..<MAX_RETRY_DAYS] ([], None, 0) = (tab, used, naps)"
    by (metis prod_cases3)
  from assms pr have ne: "tab \<noteq> []"
    by (auto simp: worker_day_def split: if_splits option.splits)
  from probe_found [OF pr ne] obtain c where c: "used = Some c" by auto
  from assms pr ne obtain idx where "res = extract_records idx used t BVC_ASSETS []"
    by (auto simp: worker_day_def Let_def split: sum.splits option.splits)
  with assms(2) extract_records_fields [of mn r idx used t BVC_ASSETS "[]"]
  have "date r = used \<and> targetDate r = t \<and> mnemonic r = mn" by simp
  with pr ne c show ?thesis by auto
qed




subsection \<open>Failing probes and skipped dates\<close>

lemma probe_first_data:
  assumes "\<forall>j \<in> set pre. fetch j (skip_weekend (base + int j)) \<in> {Raised, Tab []}"
    and "fetch i (skip_weekend (base + int i)) = Tab t" "t \<noteq> []"
  shows "probe fetch base (pre @ i # post) ([], used, naps) =
           (t, Some (skip_weekend (base + int i)),
            naps + length (filter (\<lambda>j. fetch j (skip_weekend (base + int j)) = Raised) pre))"
  using assms(1)
proof (induction pre arbitrary: naps)
  case Nil
  with assms(2,3) show ?case by simp
next
  case (Cons j pre)
  then show ?case by (cases "fetch j (skip_weekend (base + int j))") auto
qed

lemma upt_split: "i < n \<Longrightarrow> [0..<n] = [0..<i] @ i # [Suc i..<n]"
  using upt_add_eq_append [of 0 i "n - i"] by (simp add: upt_conv_Cons)

text \<open>
  Claim C6, as the code has it. A probe whose fetch raises is followed by one pause and
  the loop goes on with the next delta, as after an empty answer: when the probes
  before number \<open>i\<close> raise or are empty and probe \<open>i\<close> returns rows, the loop ends with
  these rows and the date of probe \<open>i\<close>, after one pause per raising probe. When every
  probe of the horizon raises or is empty, the loop ends without rows and the worker
  adds one to \<^verbatim>\<open>bvc_skip\<close> and one to \<^verbatim>\<open>bvc_done\<close>, leaving \<^verbatim>\<open>bvc_errors\<close> and \<^verbatim>\<open>bvc_ok\<close>;
  then it prints the progress bar: if that print returns, the worker returns the empty
  dictionary and the main thread changes nothing; if it raises, the task ends in that
  exception, no dictionary is returned and the main thread adds one to \<^verbatim>\<open>bvc_errors\<close>.
\<close>

theorem worker_day_failed_probe_continues:
  "(\<forall>i t. i < MAX_RETRY_DAYS \<longrightarrow>
        (\<forall>j < i. fetch j (skip_weekend (base + int j)) \<in> {Raised, Tab []}) \<longrightarrow>
        fetch i (skip_weekend (base + int i)) = Tab t \<longrightarrow> t \<noteq> [] \<longrightarrow>
        probe fetch base [0..<MAX_RETRY_DAYS] ([], None, 0) =
          (t, Some (skip_weekend (base + int i)),
           length (filter (\<lambda>j. fetch j (skip_weekend (base + int j)) = Raised) [0..<i])))
   \<and> ((\<forall>delta < MAX_RETRY_DAYS.
          fetch delta (skip_weekend (base + int delta)) \<in> {Raised, Tab []}) \<longrightarrow>
        probe fetch base [0..<MAX_RETRY_DAYS] ([], None, 0) =
          ([], None,
           length (filter (\<lambda>j. fetch j (skip_weekend (base + int j)) = Raised) [0..<MAX_RETRY_DAYS]))
        \<and> worker_day fetch True base p =
            (Inr [], p\<lparr>bvc_skip := bvc_skip p + 1, bvc_done := bvc_done p + 1\<rparr>)
        \<and> worker_day fetch False base p =
            (Inl OSError, p\<lparr>bvc_skip := bvc_skip p + 1, bvc_done := bvc_done p + 1\<rparr>)
        \<and> handle_future (Inr []) (acc, p') = (acc, p')
        \<and> handle_future (Inl OSError) (acc, p') = (acc, p'\<lparr>bvc_errors := bvc_errors p' + 1\<rparr>))"
proof -
  have found: "probe fetch base [0..<MAX_RETRY_DAYS] ([], None, 0) =
          (t, Some (skip_weekend (base + int i)),
           length (filter (\<lambda>j. fetch j (skip_weekend (base + int j)) = Raised) [0..<i]))"
    if i: "i < MAX_RETRY_DAYS"
      and before: "\<forall>j < i. fetch j (skip_weekend (base + int j)) \<in> {Raised, Tab []}"
      and here: "fetch i (skip_weekend (base + int i)) = Tab t" "t \<noteq> []"
    for i t
  proof -
    from before have "\<forall>j \<in> set [0..<i]. fetch j (skip_weekend (base + int j)) \<in> {Raised, Tab []}"
      by simp
    with here probe_first_data [of "[0..<i]" fetch base i t "[Suc i..<MAX_RETRY_DAYS]" None 0]
    show ?thesis unfolding upt_split [OF i] by simp
  qed
  have none: "probe fetch base [0..<MAX_RETRY_DAYS] ([], None, 0) =
          ([], None,
           length (filter (\<lambda>j. fetch j (skip_weekend (base + int j)) = Raised) [0..<MAX_RETRY_DAYS]))"
    if "\<forall>delta < MAX_RETRY_DAYS. fetch delta (skip_weekend (base + int delta)) \<in> {Raised, Tab []}"
  proof -
    from that have "\<forall>delta \<in> set [0..<MAX_RETRY_DAYS].
        fetch delta (skip_weekend (base + int delta)) \<in> {Raised, Tab []}" by simp
    with probe_no_data [of "[0..<MAX_RETRY_DAYS]" fetch base None 0] show ?thesis by simp
  qed
  have skip: "worker_day fetch True base p =
            (Inr [], p\<lparr>bvc_skip := bvc_skip p + 1, bvc_done := bvc_done p + 1\<rparr>)
        \<and> worker_day fetch False base p =
            (Inl OSError, p\<lparr>bvc_skip := bvc_skip p + 1, bvc_done := bvc_done p + 1\<rparr>)"
    if "\<forall>delta < MAX_RETRY_DAYS. fetch delta (skip_weekend (base + int delta)) \<in> {Raised, Tab []}"
    using none [OF that] by (simp add: worker_day_def print_bar_def)
  have main: "handle_future (Inr []) (acc, p') = (acc, p')"
    "handle_future (Inl OSError) (acc, p') = (acc, p'\<lparr>bvc_errors := bvc_errors p' + 1\<rparr>)"
    by (simp_all add: handle_future_def)
  from found none skip main show ?thesis by blast
qed

theorem worker_day_failed_probe_continues_witness:
  "probe (\<lambda>delta c. if delta < 3 then Raised else Tab [[(''mnemonic'', JStr ''ISA'')]]) 1
      [0..<MAX_RETRY_DAYS] ([], None, 0)
    = ([[(''mnemonic'', JStr ''ISA'')]], Some 4, 3)
   \<and> worker_day (\<lambda>delta c. if delta < 3 then Raised else Tab []) True 1
      \<lparr>bvc_done = 4, bvc_total = 9, bvc_ok = 30, bvc_skip = 2, bvc_errors = 0\<rparr>
    = (Inr [], \<lparr>bvc_done = 5, bvc_total = 9, bvc_ok = 30, bvc_skip = 3, bvc_errors = 0\<rparr>)"
proof -
  let ?f = "\<lambda>(delta::nat) (c::int). if delta < 3 then Raised else Tab [[(''mnemonic'', JStr ''ISA'')]]"
  let ?g = "\<lambda>(delta::nat) (c::int). if delta < 3 then Raised else Tab []"
  let ?p = "\<lparr>bvc_done = 4, bvc_total = 9, bvc_ok = 30, bvc_skip = 2, bvc_errors = 0\<rparr>"
  have c: "skip_weekend (1 + int 3) = 4" "[0..<3] = [0, 1, 2]"
    by (simp_all add: skip_weekend_cases weekday_def upt_conv_Cons)
  have i3: "(3::nat) < MAX_RETRY_DAYS" by (simp add: MAX_RETRY_DAYS_def)
  have before: "\<forall>j < 3. ?f j (skip_weekend (1 + int j)) \<in> {Raised, Tab []}" by simp
  have here: "?f 3 (skip_weekend (1 + int 3)) = Tab [[(''mnemonic'', JStr ''ISA'')]]"
    "[[(''mnemonic'', JStr ''ISA'')]] \<noteq> ([] :: row list)" by simp_all
  have a: "probe ?f 1 [0..<MAX_RETRY_DAYS] ([], None, 0) = ([[(''mnemonic'', JStr ''ISA'')]], Some 4, 3)"
    using worker_day_failed_probe_continues [of ?f 1 ?p "[]" ?p, THEN conjunct1,
        THEN spec [of _ 3], THEN spec [of _ "[[(''mnemonic'', JStr ''ISA'')]]"]] i3 before here c
    by simp
  have b: "worker_day ?g True 1 ?p
      = (Inr [], \<lparr>bvc_done = 5, bvc_total = 9, bvc_ok = 30, bvc_skip = 3, bvc_errors = 0\<rparr>)"
    using worker_day_failed_probe_continues [of ?g 1 ?p "[]" ?p] by simp
  from a b show ?thesis by blast
qed

text \<open>
  Claim C6 as stated fails when the progress print of a skipped date raises (a closed
  or broken standard output): every probe of the date raises, the date is counted as a
  skip, the task ends in the exception of the print instead of returning a dictionary,
  and the run counts the date as an error too.
\<close>

theorem worker_day_skip_counted_as_error:
  "worker_day (\<lambda>delta c. Raised) False 1
      \<lparr>bvc_done = 0, bvc_total = 1, bvc_ok = 0, bvc_skip = 0, bvc_errors = 0\<rparr>
    = (Inl OSError, \<lparr>bvc_done = 1, bvc_total = 1, bvc_ok = 0, bvc_skip = 1, bvc_errors = 0\<rparr>)
   \<and> snd (main_bvc (\<lambda>d delta c. Raised) (\<lambda>d. False) [1])
    = \<lparr>bvc_done = 1, bvc_total = 1, bvc_ok = 0, bvc_skip = 1, bvc_errors = 1\<rparr>"
  by (simp add: main_bvc_def handle_future_def worker_day_def print_bar_def MAX_RETRY_DAYS_def
        upt_conv_Cons)

subsection \<open>Extraction of the tracked securities\<close>

lemma find_app:
  "find P (xs @ ys) = (case find P xs of None \<Rightarrow> find P ys | Some x \<Rightarrow> Some x)"
  by (induction xs) auto

lemma build_idx_lookup:
  "build_idx xs idx0 = Inr idx \<Longrightarrow>
     idx (m, b) =
       (case find (\<lambda>x. map_of x ''mnemonic'' = Some m \<and> map_of x ''board'' = Some b) (rev xs) of
          Some x \<Rightarrow> Some x
        | None \<Rightarrow> idx0 (m, b))"
proof (induction xs arbitrary: idx0)
  case Nil
  then show ?case by simp
next
  case (Cons x xs)
  from Cons.prems obtain m' b' where x: "map_of x ''mnemonic'' = Some m'" "map_of x ''board'' = Some b'"
    and rest: "build_idx xs (idx0((m', b') \<mapsto> x)) = Inr idx"
    by (auto split: option.splits)
  from Cons.IH [OF rest] x show ?case
    by (auto simp: find_app split: option.splits)
qed

lemma build_idx_total:
  "\<forall>x \<in> set xs. map_of x ''mnemonic'' \<noteq> None \<and> map_of x ''board'' \<noteq> None \<Longrightarrow>
     \<exists>idx. build_idx xs idx0 = Inr idx"
  by (induction xs arbitrary: idx0) auto

lemma build_idx_raises:
  "\<exists>x \<in> set xs. map_of x ''mnemonic'' = None \<or> map_of x ''board'' = None \<Longrightarrow>
     build_idx xs idx0 = Inl KeyError"
  by (induction xs arbitrary: idx0) (auto split: option.splits)

lemma extract_records_dom:
  "mn \<in> fst ` set (extract_records idx used t assets res0) \<longleftrightarrow>
     mn \<in> fst ` set res0
     \<or> (\<exists>brd r. (mn, brd) \<in> set assets \<and> idx (JStr mn, JStr brd) = Some r
           \<and> r \<noteq> [] \<and> get r ''lastPrice'' \<noteq> JNull)"
proof (induction assets arbitrary: res0)
  case Nil
  then show ?case by simp
next
  case (Cons a assets)
  obtain m b where a: "a = (m, b)" by (cases a)
  show ?case
  proof (cases "idx (JStr m, JStr b)")
    case None
    with Cons.IH [of res0] a show ?thesis by auto
  next
    case (Some row)
    show ?thesis
    proof (cases "row \<noteq> [] \<and> get row ''lastPrice'' \<noteq> JNull")
      case True
      have "mn \<in> fst ` set (extract_records idx used t (a # assets) res0) \<longleftrightarrow>
            mn \<in> fst ` set (extract_records idx used t assets
                      (AList.update m (make_record used t m b row) res0))"
        using a Some True by simp
      also have "\<dots> \<longleftrightarrow> mn \<in> insert m (fst ` set res0)
           \<or> (\<exists>brd r. (mn, brd) \<in> set assets \<and> idx (JStr mn, JStr brd) = Some r
                 \<and> r \<noteq> [] \<and> get r ''lastPrice'' \<noteq> JNull)"
        unfolding Cons.IH by (simp add: dom_update)
      also have "\<dots> \<longleftrightarrow> mn \<in> fst ` set res0
           \<or> (\<exists>brd r. (mn, brd) \<in> set (a # assets) \<and> idx (JStr mn, JStr brd) = Some r
                 \<and> r \<noteq> [] \<and> get r ''lastPrice'' \<noteq> JNull)"
        using a Some True by auto
      finally show ?thesis .
    next
      case False
      with Cons.IH [of res0] a Some show ?thesis by auto
    qed
  qed
qed

lemma BVC_ASSETS_board: "(mn, brd) \<in> set BVC_ASSETS \<Longrightarrow> (mn, brd') \<in> set BVC_ASSETS \<Longrightarrow> brd' = brd"
proof -
  have "distinct (map fst BVC_ASSETS)" by (simp add: BVC_ASSETS_def)
  then show "(mn, brd) \<in> set BVC_ASSETS \<Longrightarrow> (mn, brd') \<in> set BVC_ASSETS \<Longrightarrow> brd' = brd"
    by (meson eq_key_imp_eq_value)
qed

text \<open>
  Claim C5, as the code has it. Let the snapshot be the list the probe loop ended with,
  every row of it carrying a \<^verbatim>\<open>mnemonic\<close> and a \<^verbatim>\<open>board\<close>. Then the worker raises
  nothing (but what its progress print raises, after the result is built), and its
  result has an entry for a tracked security exactly when the last row of the snapshot
  with that (mnemonic, board) key has a non-null \<^verbatim>\<open>lastPrice\<close>: the index keeps one row
  per key, the last one.
\<close>

theorem worker_day_extracts_last_priced_row:
  assumes asset: "(mn, brd) \<in> set BVC_ASSETS"
    and pr: "probe fetch trade_date [0..<MAX_RETRY_DAYS] ([], None, 0) = (tab, used_date, naps)"
    and wf: "\<forall>x \<in> set tab. map_of x ''mnemonic'' \<noteq> None \<and> map_of x ''board'' \<noteq> None"
  shows "\<exists>res p'. worker_day fetch True trade_date p = (Inr res, p')
           \<and> worker_day fetch False trade_date p = (Inl OSError, p')
           \<and> (map_of res mn \<noteq> None \<longleftrightarrow>
                (\<exists>r. find (\<lambda>x. map_of x ''mnemonic'' = Some (JStr mn) \<and> map_of x ''board'' = Some (JStr brd))
                        (rev tab) = Some r
                     \<and> get r ''lastPrice'' \<noteq> JNull))"
proof (cases "tab = []")
  case True
  with pr show ?thesis by (simp add: worker_day_def print_bar_def)
next
  case False
  from build_idx_total [OF wf] obtain idx where idx: "build_idx tab Map.empty = Inr idx" by blast
  define P where "P = (\<lambda>x::row. map_of x ''mnemonic'' = Some (JStr mn) \<and> map_of x ''board'' = Some (JStr brd))"
  have look: "idx (JStr mn, JStr brd) = find P (rev tab)"
    unfolding P_def using build_idx_lookup [OF idx, of "JStr mn" "JStr brd"]
    by (simp split: option.splits)
  have nonempty: "r \<noteq> []" if "find P (rev tab) = Some r" for r
  proof -
    from that have "P r" by (auto simp: find_Some_iff)
    then show ?thesis unfolding P_def by auto
  qed
  define res where "res = extract_records idx used_date trade_date BVC_ASSETS []"
  have dom: "mn \<in> fst ` set res \<longleftrightarrow>
      (\<exists>brd' r. (mn, brd') \<in> set BVC_ASSETS \<and> idx (JStr mn, JStr brd') = Some r
           \<and> r \<noteq> [] \<and> get r ''lastPrice'' \<noteq> JNull)"
    unfolding res_def extract_records_dom by simp
  have iff: "map_of res mn \<noteq> None \<longleftrightarrow> (\<exists>r. find P (rev tab) = Some r \<and> get r ''lastPrice'' \<noteq> JNull)"
  proof
    assume "map_of res mn \<noteq> None"
    then have "mn \<in> fst ` set res" by (simp add: map_of_eq_None_iff)
    with dom obtain brd' r where a: "(mn, brd') \<in> set BVC_ASSETS"
      and b: "idx (JStr mn, JStr brd') = Some r" and c: "get r ''lastPrice'' \<noteq> JNull"
      by blast
    from BVC_ASSETS_board [OF asset a] have "brd' = brd" .
    with b look have "find P (rev tab) = Some r" by simp
    with c show "\<exists>r. find P (rev tab) = Some r \<and> get r ''lastPrice'' \<noteq> JNull" by blast
  next
    assume "\<exists>r. find P (rev tab) = Some r \<and> get r ''lastPrice'' \<noteq> JNull"
    then obtain r where r: "find P (rev tab) = Some r" "get r ''lastPrice'' \<noteq> JNull" by blast
    from r(1) look have "idx (JStr mn, JStr brd) = Some r" by simp
    with asset r(2) nonempty [OF r(1)] dom have "mn \<in> fst ` set res" by blast
    then show "map_of res mn \<noteq> None" by (simp add: map_of_eq_None_iff)
  qed
  from pr False idx have "worker_day fetch True trade_date p =
      (Inr res, p\<lparr>bvc_ok := bvc_ok p + length res, bvc_done := bvc_done p + 1\<rparr>)"
    "worker_day fetch False trade_date p =
      (Inl OSError, p\<lparr>bvc_ok := bvc_ok p + length res, bvc_done := bvc_done p + 1\<rparr>)"
    by (simp_all add: worker_day_def Let_def res_def print_bar_def)
  with iff show ?thesis unfolding P_def by blast
qed

theorem worker_day_extracts_last_priced_row_witness:
  "(''ISA'', ''EQTY'') \<in> set BVC_ASSETS
   \<and> (\<exists>res p'. worker_day
          (\<lambda>delta c. Tab [[(''mnemonic'', JStr ''ISA''), (''board'', JStr ''EQTY''), (''lastPrice'', JNull)],
                          [(''mnemonic'', JStr ''ISA''), (''board'', JStr ''EQTY''), (''lastPrice'', JNum 7)]]) True 1
          \<lparr>bvc_done = 0, bvc_total = 1, bvc_ok = 0, bvc_skip = 0, bvc_errors = 0\<rparr> = (Inr res, p')
        \<and> map_of res ''ISA'' \<noteq> None)"
proof -
  let ?tab = "[[(''mnemonic'', JStr ''ISA''), (''board'', JStr ''EQTY''), (''lastPrice'', JNull)],
               [(''mnemonic'', JStr ''ISA''), (''board'', JStr ''EQTY''), (''lastPrice'', JNum 7)]]"
  have h1: "(''ISA'', ''EQTY'') \<in> set BVC_ASSETS" by (simp add: BVC_ASSETS_def)
  have h2: "probe (\<lambda>delta c. Tab ?tab) 1 [0..<MAX_RETRY_DAYS] ([], None, 0) = (?tab, Some 1, 0)"
    by (simp add: MAX_RETRY_DAYS_def upt_conv_Cons skip_weekend_cases weekday_def)
  have h3: "\<forall>x \<in> set ?tab. map_of x ''mnemonic'' \<noteq> None \<and> map_of x ''board'' \<noteq> None" by simp
  from worker_day_extracts_last_priced_row [OF h1 h2 h3,
         of "\<lparr>bvc_done = 0, bvc_total = 1, bvc_ok = 0, bvc_skip = 0, bvc_errors = 0\<rparr>"]
  obtain res p' where
    "worker_day (\<lambda>delta c. Tab ?tab) True 1
       \<lparr>bvc_done = 0, bvc_total = 1, bvc_ok = 0, bvc_skip = 0, bvc_errors = 0\<rparr> = (Inr res, p')"
    "map_of res ''ISA'' \<noteq> None"
    by (auto simp: get_def)
  with h1 show ?thesis by blast
qed

text \<open>
  Claim C5 as stated fails on a snapshot with two rows for one key, the first priced and
  the second with a null price: the snapshot contains a priced row of ECOPETROL, and the
  result has no entry for it. A row without a \<^verbatim>\<open>board\<close> ends the worker with
  \<^verbatim>\<open>KeyError\<close>.
\<close>

theorem worker_day_first_priced_row_dropped:
  "(''ECOPETROL'', ''EQTY'') \<in> set BVC_ASSETS
   \<and> get [(''mnemonic'', JStr ''ECOPETROL''), (''board'', JStr ''EQTY''), (''lastPrice'', JNum 100)] ''lastPrice'' \<noteq> JNull
   \<and> worker_day
        (\<lambda>delta c. Tab [[(''mnemonic'', JStr ''ECOPETROL''), (''board'', JStr ''EQTY''), (''lastPrice'', JNum 100)],
                        [(''mnemonic'', JStr ''ECOPETROL''), (''board'', JStr ''EQTY''), (''lastPrice'', JNull)]]) True 1
        \<lparr>bvc_done = 0, bvc_total = 1, bvc_ok = 0, bvc_skip = 0, bvc_errors = 0\<rparr>
      = (Inr [], \<lparr>bvc_done = 1, bvc_total = 1, bvc_ok = 0, bvc_skip = 0, bvc_errors = 0\<rparr>)
   \<and> fst (worker_day
        (\<lambda>delta c. Tab [[(''mnemonic'', JStr ''ECOPETROL''), (''lastPrice'', JNum 100)]]) True 1
        \<lparr>bvc_done = 0, bvc_total = 1, bvc_ok = 0, bvc_skip = 0, bvc_errors = 0\<rparr>) = Inl KeyError"
  by (simp add: worker_day_def BVC_ASSETS_def MAX_RETRY_DAYS_def upt_conv_Cons
        skip_weekend_cases weekday_def get_def print_bar_def)


subsection \<open>Progress counters of a run\<close>

lemma worker_day_raises:
  "isl (fst (worker_day f console d p)) \<longleftrightarrow> raises_before_count f d \<or> \<not> console"
  by (simp add: worker_day_def raises_before_count_def print_bar_def Let_def
        split: prod.splits sum.splits)

lemma worker_day_counters:
  "worker_day f console d p = (out, p') \<Longrightarrow>
     bvc_errors p' = bvc_errors p \<and> bvc_total p' = bvc_total p
     \<and> (if raises_before_count f d then isl out \<and> p' = p
         else bvc_done p' = bvc_done p + 1 \<and> (isl out \<longleftrightarrow> \<not> console))"
  by (auto simp: worker_day_def raises_before_count_def print_bar_def Let_def
        split: prod.splits sum.splits if_splits)

lemma extract_records_keys:
  "fst ` set (extract_records idx used t assets res0) \<subseteq> fst ` set res0 \<union> fst ` set assets"
proof
  fix mn
  assume "mn \<in> fst ` set (extract_records idx used t assets res0)"
  then consider "mn \<in> fst ` set res0" | brd where "(mn, brd) \<in> set assets"
    unfolding extract_records_dom by blast
  then show "mn \<in> fst ` set res0 \<union> fst ` set assets"
  proof cases
    case 1
    then show ?thesis by simp
  next
    case 2
    then have "fst (mn, brd) \<in> fst ` set assets" by (rule imageI)
    then show ?thesis by simp
  qed
qed

lemma worker_day_keys:
  assumes "worker_day f console d p = (Inr res, p')"
  shows "fst ` set res \<subseteq> fst ` set BVC_ASSETS"
proof (cases "res = []")
  case True
  then show ?thesis by simp
next
  case False
  with assms obtain idx used where "res = extract_records idx used d BVC_ASSETS []"
    by (auto simp: worker_day_def Let_def split: prod.splits sum.splits if_splits option.splits)
  with extract_records_keys [of idx used d BVC_ASSETS "[]"] show ?thesis by simp
qed

lemma merge_day_known_keys:
  "fst ` set items \<subseteq> fst ` set acc \<Longrightarrow>
     \<exists>acc'. merge_day items acc = (None, acc') \<and> map fst acc' = map fst acc"
proof (induction items arbitrary: acc)
  case Nil
  then show ?case by simp
next
  case (Cons item items)
  obtain mn r where item: "item = (mn, r)" by (cases item)
  with Cons.prems have "mn \<in> fst ` set acc" by auto
  then obtain rs where rs: "map_of acc mn = Some rs"
    by (metis map_of_eq_None_iff not_None_eq)
  have keys: "map fst (AList.update mn (rs @ [r]) acc) = map fst acc"
    using \<open>mn \<in> fst ` set acc\<close> by (simp add: update_keys)
  have "fst ` set (AList.update mn (rs @ [r]) acc) = fst ` set acc"
    using keys by (metis list.set_map)
  with Cons.prems have "fst ` set items \<subseteq> fst ` set (AList.update mn (rs @ [r]) acc)"
    by auto
  from Cons.IH [OF this] keys item rs show ?case by auto
qed

lemma handle_future_done:
  "bvc_done (snd (handle_future out (acc, p))) = bvc_done p"
  by (simp add: handle_future_def split: sum.splits prod.splits option.splits)

lemma bvc_phase_counters:
  assumes "fst ` set BVC_ASSETS \<subseteq> fst ` set acc"
  shows "\<exists>acc' p'. bvc_phase fetch console order (acc, p) = (acc', p')
           \<and> map fst acc' = map fst acc
           \<and> bvc_total p' = bvc_total p
           \<and> bvc_errors p' = bvc_errors p
                + length (filter (\<lambda>d. raises_before_count (fetch d) d \<or> \<not> console d) order)
           \<and> bvc_done p' = bvc_done p
                + length (filter (\<lambda>d. \<not> raises_before_count (fetch d) d) order)"
  using assms
proof (induction order arbitrary: acc p)
  case Nil
  then show ?case by simp
next
  case (Cons d ds)
  obtain out p1 where w: "worker_day (fetch d) (console d) d p = (out, p1)"
    by (cases "worker_day (fetch d) (console d) d p")
  have out: "isl out \<longleftrightarrow> raises_before_count (fetch d) d \<or> \<not> console d"
    using w worker_day_raises [of "fetch d" "console d" d p] by simp
  note cnt = worker_day_counters [OF w]
  show ?case
  proof (cases out)
    case (Inl e)
    have h: "handle_future out (acc, p1) = (acc, p1\<lparr>bvc_errors := bvc_errors p1 + 1\<rparr>)"
      using Inl by (simp add: handle_future_def)
    from Cons.IH [OF Cons.prems, of "p1\<lparr>bvc_errors := bvc_errors p1 + 1\<rparr>"]
    obtain acc' p' where
      ih: "bvc_phase fetch console ds (acc, p1\<lparr>bvc_errors := bvc_errors p1 + 1\<rparr>) = (acc', p')"
        "map fst acc' = map fst acc" "bvc_total p' = bvc_total p1"
        "bvc_errors p' = bvc_errors p1 + 1
           + length (filter (\<lambda>d. raises_before_count (fetch d) d \<or> \<not> console d) ds)"
        "bvc_done p' = bvc_done p1
           + length (filter (\<lambda>d. \<not> raises_before_count (fetch d) d) ds)"
      by auto
    have "bvc_phase fetch console (d # ds) (acc, p) = (acc', p')"
      using w h ih(1) by simp
    moreover have "bvc_errors p' = bvc_errors p
        + length (filter (\<lambda>d. raises_before_count (fetch d) d \<or> \<not> console d) (d # ds))"
      using ih(4) cnt out Inl by (simp split: if_splits)
    moreover have "bvc_done p' = bvc_done p
        + length (filter (\<lambda>d. \<not> raises_before_count (fetch d) d) (d # ds))"
      using ih(5) cnt by (simp split: if_splits)
    moreover have "bvc_total p' = bvc_total p" using ih(3) cnt by simp
    ultimately show ?thesis using ih(2) by blast
  next
    case (Inr res)
    from out Inr have nr: "\<not> raises_before_count (fetch d) d" "console d" by simp_all
    from worker_day_keys [of "fetch d" "console d" d p res p1] w Inr Cons.prems
    have "fst ` set res \<subseteq> fst ` set acc" by auto
    from merge_day_known_keys [OF this] obtain acc1 where
      m: "merge_day res acc = (None, acc1)" and k: "map fst acc1 = map fst acc" by blast
    have h: "handle_future out (acc, p1) = (acc1, p1)"
      using Inr m by (simp add: handle_future_def)
    have "fst ` set acc1 = fst ` set acc" using k by (metis list.set_map)
    with Cons.prems have "fst ` set BVC_ASSETS \<subseteq> fst ` set acc1" by simp
    from Cons.IH [OF this, of p1]
    obtain acc' p' where
      ih: "bvc_phase fetch console ds (acc1, p1) = (acc', p')"
        "map fst acc' = map fst acc1" "bvc_total p' = bvc_total p1"
        "bvc_errors p' = bvc_errors p1
           + length (filter (\<lambda>d. raises_before_count (fetch d) d \<or> \<not> console d) ds)"
        "bvc_done p' = bvc_done p1
           + length (filter (\<lambda>d. \<not> raises_before_count (fetch d) d) ds)"
      by auto
    have "bvc_phase fetch console (d # ds) (acc, p) = (acc', p')"
      using w h ih(1) by simp
    moreover have "bvc_errors p' = bvc_errors p
        + length (filter (\<lambda>d. raises_before_count (fetch d) d \<or> \<not> console d) (d # ds))"
      using ih(4) cnt nr by simp
    moreover have "bvc_done p' = bvc_done p
        + length (filter (\<lambda>d. \<not> raises_before_count (fetch d) d) (d # ds))"
      using ih(5) cnt nr by simp
    moreover have "bvc_total p' = bvc_total p" using ih(3) cnt by simp
    ultimately show ?thesis using ih(2) k by auto
  qed
qed

lemma main_bvc_counters:
  "bvc_errors (snd (main_bvc fetch console order)) =
      length (filter (\<lambda>d. raises_before_count (fetch d) d \<or> \<not> console d) order)
   \<and> bvc_done (snd (main_bvc fetch console order)) =
      length (filter (\<lambda>d. \<not> raises_before_count (fetch d) d) order)
   \<and> bvc_total (snd (main_bvc fetch console order)) = length order
   \<and> map fst (fst (main_bvc fetch console order)) = map fst BVC_ASSETS"
proof -
  let ?acc0 = "map (\<lambda>(mn, brd). (mn, [] :: hist_record list)) BVC_ASSETS"
  let ?p0 = "\<lparr>bvc_done = 0, bvc_total = length order, bvc_ok = 0, bvc_skip = 0, bvc_errors = 0\<rparr>"
  have keys0: "map fst ?acc0 = map fst BVC_ASSETS" by (simp add: case_prod_unfold comp_def)
  then have "fst ` set BVC_ASSETS \<subseteq> fst ` set ?acc0" by (metis list.set_map order_refl)
  from bvc_phase_counters [OF this, of fetch console order ?p0] obtain acc' p' where
    ph: "bvc_phase fetch console order (?acc0, ?p0) = (acc', p')" and
    facts: "map fst acc' = map fst ?acc0" "bvc_total p' = length order"
      "bvc_errors p' = length (filter (\<lambda>d. raises_before_count (fetch d) d \<or> \<not> console d) order)"
      "bvc_done p' = length (filter (\<lambda>d. \<not> raises_before_count (fetch d) d) order)"
    by auto
  have "main_bvc fetch console order = (map (\<lambda>(mn, records). (mn, sort_key date records)) acc', p')"
    using ph by (simp add: main_bvc_def)
  moreover have "map fst (map (\<lambda>(mn, records). (mn, sort_key date records)) acc') = map fst acc'"
    by (simp add: case_prod_unfold comp_def)
  ultimately show ?thesis using facts keys0 by simp
qed

lemma count_split:
  "length (filter (\<lambda>d. A d \<or> \<not> C d) xs) =
     length (filter A xs) + length (filter (\<lambda>d. \<not> A d \<and> \<not> C d) xs)"
  by (induction xs) auto

text \<open>
  Claim C2, as the code has it. A day task updates the counters once, under the lock:
  after the probe loop on a skip, after the extraction otherwise; the progress print
  follows the update, outside any \<^verbatim>\<open>try\<close>. For every run of \<open>N\<close> day tasks, in any
  completion order, of which \<open>k\<close> end in an exception: \<^verbatim>\<open>bvc_errors\<close> ends at \<open>k\<close>, and
  \<^verbatim>\<open>bvc_done\<close> at \<open>N\<close> minus the number of tasks that raised before their update
  (while indexing the snapshot), which is \<open>N - k\<close> plus the number of tasks that raised
  in the progress print. A task that reaches its update adds exactly one to
  \<^verbatim>\<open>bvc_done\<close>, also when its print raises afterwards; a task that raises before it
  leaves the counters as they are; the main thread never changes \<^verbatim>\<open>bvc_done\<close>, and its
  \<^verbatim>\<open>except\<close> branch adds one to \<^verbatim>\<open>bvc_errors\<close> only.
\<close>

theorem main_bvc_done_counts_updates:
  "bvc_errors (snd (main_bvc fetch console order)) =
      length (filter (\<lambda>d. isl (fst (worker_day (fetch d) (console d) d q))) order)
   \<and> bvc_done (snd (main_bvc fetch console order)) =
      length order - length (filter (\<lambda>d. raises_before_count (fetch d) d) order)
   \<and> bvc_done (snd (main_bvc fetch console order))
        + length (filter (\<lambda>d. isl (fst (worker_day (fetch d) (console d) d q))) order) =
      length order
        + length (filter (\<lambda>d. \<not> raises_before_count (fetch d) d \<and> \<not> console d) order)
   \<and> (worker_day (fetch d) (console d) d p = (out, p') \<longrightarrow>
        bvc_errors p' = bvc_errors p
        \<and> (if raises_before_count (fetch d) d then isl out \<and> p' = p
            else bvc_done p' = bvc_done p + 1 \<and> (isl out \<longleftrightarrow> \<not> console d))
        \<and> bvc_done (snd (handle_future out (acc, p'))) = bvc_done p'
        \<and> (isl out \<longrightarrow>
             handle_future out (acc, p') = (acc, p'\<lparr>bvc_errors := bvc_errors p' + 1\<rparr>)))"
proof -
  let ?A = "\<lambda>d. raises_before_count (fetch d) d"
  have isl: "(\<lambda>d. isl (fst (worker_day (fetch d) (console d) d q))) = (\<lambda>d. ?A d \<or> \<not> console d)"
    by (simp add: worker_day_raises)
  have len: "length (filter (\<lambda>d. \<not> ?A d) order) = length order - length (filter ?A order)"
    using sum_length_filter_compl [of ?A order] by simp
  have le: "length (filter ?A order) \<le> length order" by simp
  note m = main_bvc_counters [of fetch console order]
  have e: "bvc_errors (snd (main_bvc fetch console order)) =
      length (filter (\<lambda>d. isl (fst (worker_day (fetch d) (console d) d q))) order)"
    unfolding isl using m by simp
  have dn: "bvc_done (snd (main_bvc fetch console order)) =
      length order - length (filter ?A order)"
    using m len by simp
  have both: "bvc_done (snd (main_bvc fetch console order))
        + length (filter (\<lambda>d. isl (fst (worker_day (fetch d) (console d) d q))) order) =
      length order + length (filter (\<lambda>d. \<not> ?A d \<and> \<not> console d) order)"
    unfolding isl dn count_split [of ?A console order] using le by simp
  have task: "bvc_errors p' = bvc_errors p
        \<and> (if raises_before_count (fetch d) d then isl out \<and> p' = p
            else bvc_done p' = bvc_done p + 1 \<and> (isl out \<longleftrightarrow> \<not> console d))
        \<and> bvc_done (snd (handle_future out (acc, p'))) = bvc_done p'
        \<and> (isl out \<longrightarrow>
             handle_future out (acc, p') = (acc, p'\<lparr>bvc_errors := bvc_errors p' + 1\<rparr>))"
    if "worker_day (fetch d) (console d) d p = (out, p')"
  proof -
    have "isl out \<longrightarrow> handle_future out (acc, p') = (acc, p'\<lparr>bvc_errors := bvc_errors p' + 1\<rparr>)"
      by (cases out) (simp_all add: handle_future_def)
    with worker_day_counters [OF that] handle_future_done [of out acc p'] show ?thesis by simp
  qed
  from e dn both task show ?thesis by blast
qed

theorem main_bvc_done_counts_updates_witness:
  "worker_day (\<lambda>delta c. Tab []) False 3
      \<lparr>bvc_done = 1, bvc_total = 3, bvc_ok = 0, bvc_skip = 1, bvc_errors = 1\<rparr>
     = (Inl OSError, \<lparr>bvc_done = 2, bvc_total = 3, bvc_ok = 0, bvc_skip = 2, bvc_errors = 1\<rparr>)
   \<and> handle_future (Inl OSError)
        ([], \<lparr>bvc_done = 2, bvc_total = 3, bvc_ok = 0, bvc_skip = 2, bvc_errors = 1\<rparr>)
     = ([], \<lparr>bvc_done = 2, bvc_total = 3, bvc_ok = 0, bvc_skip = 2, bvc_errors = 2\<rparr>)
   \<and> bvc_errors (snd (main_bvc
        (\<lambda>d delta c. if d = 2 then Tab [[(''mnemonic'', JStr ''ISA'')]] else Tab [])
        (\<lambda>d. d \<noteq> 3) [1, 2, 3])) = 2
   \<and> bvc_done (snd (main_bvc
        (\<lambda>d delta c. if d = 2 then Tab [[(''mnemonic'', JStr ''ISA'')]] else Tab [])
        (\<lambda>d. d \<noteq> 3) [1, 2, 3])) = 2"
proof -
  let ?p = "\<lparr>bvc_done = 1, bvc_total = 3, bvc_ok = 0, bvc_skip = 1, bvc_errors = 1\<rparr>"
  let ?p' = "\<lparr>bvc_done = 2, bvc_total = 3, bvc_ok = 0, bvc_skip = 2, bvc_errors = 1\<rparr>"
  let ?f = "\<lambda>(d::int) (delta::nat) (c::int). if d = 2 then Tab [[(''mnemonic'', JStr ''ISA'')]] else Tab []"
  let ?c = "\<lambda>d::int. d \<noteq> 3"
  have w3: "worker_day (?f 3) (?c 3) 3 ?p = (Inl OSError, ?p')"
    by (simp add: worker_day_def print_bar_def MAX_RETRY_DAYS_def upt_conv_Cons
          skip_weekend_cases weekday_def)
  have r: "\<not> raises_before_count (?f 1) 1" "raises_before_count (?f 2) 2"
      "\<not> raises_before_count (?f 3) 3"
    by (simp_all add: raises_before_count_def MAX_RETRY_DAYS_def upt_conv_Cons
          skip_weekend_cases weekday_def)
  have i: "\<not> isl (fst (worker_day (?f 1) (?c 1) 1 ?p))" "isl (fst (worker_day (?f 2) (?c 2) 2 ?p))"
      "isl (fst (worker_day (?f 3) (?c 3) 3 ?p))"
    by (simp_all add: worker_day_def print_bar_def MAX_RETRY_DAYS_def upt_conv_Cons
          skip_weekend_cases weekday_def)
  from main_bvc_done_counts_updates [of ?f ?c "[1, 2, 3]" ?p 3 ?p "Inl OSError" ?p' "[]"] w3 r i
  show ?thesis by simp
qed

text \<open>
  Claim C2 as stated fails on a run of one task whose snapshot has a row without a
  \<^verbatim>\<open>board\<close>: the task ends in \<^verbatim>\<open>KeyError\<close> before its counter update, and the
  counters end with \<^verbatim>\<open>bvc_done = 0\<close>, not 1, and \<^verbatim>\<open>bvc_errors = 1\<close>.
\<close>

theorem main_bvc_failed_task_not_counted_done:
  "length [2 :: int] = 1
   \<and> fst (worker_day (\<lambda>delta c. Tab [[(''mnemonic'', JStr ''ISA'')]]) True 2
        \<lparr>bvc_done = 0, bvc_total = 1, bvc_ok = 0, bvc_skip = 0, bvc_errors = 0\<rparr>) = Inl KeyError
   \<and> snd (main_bvc (\<lambda>d delta c. Tab [[(''mnemonic'', JStr ''ISA'')]]) (\<lambda>d. True) [2])
      = \<lparr>bvc_done = 0, bvc_total = 1, bvc_ok = 0, bvc_skip = 0, bvc_errors = 1\<rparr>"
  by (simp add: main_bvc_def handle_future_def worker_day_def MAX_RETRY_DAYS_def upt_conv_Cons
        skip_weekend_cases weekday_def)

subsection \<open>Order of the persisted records\<close>

lemma merge_day_well_dated:
  "well_dated acc \<Longrightarrow> \<forall>(mn, r) \<in> set items. date r \<noteq> None \<and> mnemonic r = mn \<Longrightarrow>
     well_dated (snd (merge_day items acc))"
proof (induction items arbitrary: acc)
  case Nil
  then show ?case by simp
next
  case (Cons item items)
  obtain mn r where item: "item = (mn, r)" by (cases item)
  show ?case
  proof (cases "map_of acc mn")
    case None
    with item Cons.prems show ?thesis by simp
  next
    case (Some rs)
    then have "(mn, rs) \<in> set acc" by (rule map_of_SomeD)
    with Cons.prems item have "\<forall>r' \<in> set (rs @ [r]). date r' \<noteq> None \<and> mnemonic r' = mn"
      by (auto simp: well_dated_def)
    with Cons.prems(1) set_update_subset [of mn "rs @ [r]" acc]
    have "well_dated (AList.update mn (rs @ [r]) acc)"
      unfolding well_dated_def by blast
    from Cons.IH [OF this] Cons.prems(2) item Some show ?thesis by simp
  qed
qed

lemma handle_future_well_dated:
  assumes "well_dated acc" "worker_day f console d p = (out, p1)"
  shows "well_dated (fst (handle_future out (acc, p1)))"
proof (cases out)
  case (Inl e)
  with assms show ?thesis by (simp add: handle_future_def)
next
  case (Inr res)
  have "\<forall>(mn, r) \<in> set res. date r \<noteq> None \<and> mnemonic r = mn"
    using worker_day_records [of f console d p res p1] assms(2) Inr by fastforce
  from merge_day_well_dated [OF assms(1) this] Inr show ?thesis
    by (cases "merge_day res acc") (auto simp: handle_future_def split: option.splits)
qed

lemma bvc_phase_well_dated:
  "well_dated acc \<Longrightarrow> well_dated (fst (bvc_phase fetch console order (acc, p)))"
proof (induction order arbitrary: acc p)
  case Nil
  then show ?case by simp
next
  case (Cons d ds)
  obtain out p1 where w: "worker_day (fetch d) (console d) d p = (out, p1)"
    by (cases "worker_day (fetch d) (console d) d p")
  obtain acc1 p2 where h: "handle_future out (acc, p1) = (acc1, p2)" by (cases "handle_future out (acc, p1)")
  from handle_future_well_dated [OF Cons.prems w] h have "well_dated acc1" by simp
  from Cons.IH [OF this, of p2] w h show ?case by simp
qed

text \<open>
  Claim C7. For every completion order of the day tasks, whatever the network answers
  and whichever progress prints fail, and for every tracked security, the
  list of records written to that security's file is sorted in non-decreasing order of
  the \<^verbatim>\<open>"date"\<close> field; every record in it carries a resolved date and the security's
  mnemonic, and there is one file per tracked security, in the order of
  \<^verbatim>\<open>BVC_ASSETS\<close>.
\<close>

theorem main_bvc_files_sorted_by_date:
  "(\<forall>(mn, records) \<in> set (fst (main_bvc fetch console order)).
       sorted (map date records) \<and> (\<forall>r \<in> set records. date r \<noteq> None \<and> mnemonic r = mn))
   \<and> map fst (fst (main_bvc fetch console order)) = map fst BVC_ASSETS"
proof -
  let ?acc0 = "map (\<lambda>(mn, brd). (mn, [] :: hist_record list)) BVC_ASSETS"
  let ?p0 = "\<lparr>bvc_done = 0, bvc_total = length order, bvc_ok = 0, bvc_skip = 0, bvc_errors = 0\<rparr>"
  obtain acc p where ph: "bvc_phase fetch console order (?acc0, ?p0) = (acc, p)"
    by (cases "bvc_phase fetch console order (?acc0, ?p0)")
  have "well_dated ?acc0" by (auto simp: well_dated_def)
  from bvc_phase_well_dated [OF this, of fetch console order ?p0] ph have wd: "well_dated acc" by simp
  have files: "fst (main_bvc fetch console order) = map (\<lambda>(mn, records). (mn, sort_key date records)) acc"
    using ph by (simp add: main_bvc_def)
  have "sorted (map date records) \<and> (\<forall>r \<in> set records. date r \<noteq> None \<and> mnemonic r = mn)"
    if "(mn, records) \<in> set (fst (main_bvc fetch console order))" for mn records
  proof -
    from that files obtain rs where "(mn, rs) \<in> set acc" "records = sort_key date rs" by auto
    with wd show ?thesis by (auto simp: well_dated_def)
  qed
  with main_bvc_counters [of fetch console order] show ?thesis by blast
qed

theorem main_bvc_files_sorted_by_date_witness:
  "map targetDate (the (map_of (fst (main_bvc
      (\<lambda>d delta c. if c = d then Tab [[(''mnemonic'', JStr ''ISA''), (''board'', JStr ''EQTY''), (''lastPrice'', JNum 7)]] else Tab [])
      (\<lambda>d. True) [8, 1])) ''ISA'')) = [1, 8]
   \<and> sorted (map date (the (map_of (fst (main_bvc
      (\<lambda>d delta c. if c = d then Tab [[(''mnemonic'', JStr ''ISA''), (''board'', JStr ''EQTY''), (''lastPrice'', JNum 7)]] else Tab [])
      (\<lambda>d. True) [8, 1])) ''ISA'')))"
proof -
  let ?f = "\<lambda>(d::int) (delta::nat) (c::int). if c = d then Tab [[(''mnemonic'', JStr ''ISA''), (''board'', JStr ''EQTY''), (''lastPrice'', JNum 7)]] else Tab []"
  have ev: "map targetDate (the (map_of (fst (main_bvc ?f (\<lambda>d. True) [8, 1])) ''ISA'')) = [1, 8]"
    by code_simp
  have "map_of (fst (main_bvc ?f (\<lambda>d. True) [8, 1])) ''ISA'' \<noteq> None"
    using main_bvc_files_sorted_by_date [of ?f "\<lambda>d. True" "[8, 1]"]
    by (simp add: map_of_eq_None_iff BVC_ASSETS_def flip: set_map)
  then have "(''ISA'', the (map_of (fst (main_bvc ?f (\<lambda>d. True) [8, 1])) ''ISA'')) \<in> set (fst (main_bvc ?f (\<lambda>d. True) [8, 1]))"
    by (auto dest: map_of_SomeD)
  with main_bvc_files_sorted_by_date [of ?f "\<lambda>d. True" "[8, 1]"] ev show ?thesis by blast
qed

section \<open>Properties of the Yahoo download\<close>

subsection \<open>The invariant holds in every run\<close>



















subsection \<open>Renewals and handshakes\<close>









section \<open>Properties of the storage\<close>

lemma date_of_set_fields:
  "map_of rec ''date'' = Some v \<Longrightarrow> date_of (set_fields d rec) = v"
  by (simp add: date_of_def get_def set_fields_def merge_conv')

lemma agrees_set_fields: "agrees (set_fields d rec) rec"
  by (simp add: agrees_def set_fields_def merge_conv')

lemma update_first_None:
  "update_first v rec c = None \<longleftrightarrow> (\<forall>d \<in> set c. \<not> matches v d)"
  by (induction c) auto

lemma update_first_split:
  "update_first v rec c = Some c' \<Longrightarrow>
     \<exists>pre d post. c = pre @ d # post \<and> (\<forall>x \<in> set pre. \<not> matches v x) \<and> matches v d
        \<and> c' = pre @ set_fields d rec # post"
proof (induction c arbitrary: c')
  case Nil
  then show ?case by simp
next
  case (Cons a c)
  show ?case
  proof (cases "matches v a")
    case True
    with Cons.prems have "c' = set_fields a rec # c" by simp
    with True show ?thesis by (intro exI [of _ "[]"] exI [of _ a] exI [of _ c]) simp
  next
    case False
    with Cons.prems obtain c1 where c1: "update_first v rec c = Some c1" "c' = a # c1" by auto
    from Cons.IH [OF c1(1)] obtain pre d post where
      "c = pre @ d # post" "\<forall>x \<in> set pre. \<not> matches v x" "matches v d" "c1 = pre @ set_fields d rec # post"
      by blast
    with False c1(2) show ?thesis
      by (intro exI [of _ "a # pre"] exI [of _ d] exI [of _ post]) simp
  qed
qed

lemma update_one_fst:
  "fst (update_one (c, s) (v, rec)) =
     (case update_first v rec c of None \<Rightarrow> c @ [set_fields [(''date'', v)] rec] | Some c' \<Rightarrow> c')"
  by (simp add: update_one_def split: option.splits)

lemma update_one_dates:
  assumes "map_of rec ''date'' = Some v"
  shows "map date_of (fst (update_one (c, s) (v, rec)))
           = (if v \<in> set (map date_of c) then map date_of c else map date_of c @ [v])"
proof (cases "update_first v rec c")
  case None
  then have "v \<notin> set (map date_of c)"
    by (auto simp: update_first_None matches_def)
  with None assms show ?thesis by (simp add: update_one_fst date_of_set_fields)
next
  case (Some c')
  from update_first_split [OF Some] obtain pre d post where
    c: "c = pre @ d # post" and m: "matches v d" and c': "c' = pre @ set_fields d rec # post"
    by blast
  from m have "v \<in> set (map date_of c)" unfolding c by (auto simp: matches_def)
  moreover have "map date_of c' = map date_of c"
    using m assms unfolding c c' by (simp add: date_of_set_fields matches_def)
  ultimately show ?thesis using Some by (simp add: update_one_fst)
qed

lemma update_one_other:
  assumes "map_of rec ''date'' = Some v" "u \<noteq> v"
  shows "filter (matches u) (fst (update_one (c, s) (v, rec))) = filter (matches u) c"
proof (cases "update_first v rec c")
  case None
  with assms show ?thesis by (simp add: update_one_fst matches_def date_of_set_fields)
next
  case (Some c')
  from update_first_split [OF Some] obtain pre d post where
    c: "c = pre @ d # post" and m: "matches v d" and c': "c' = pre @ set_fields d rec # post"
    by blast
  from m assms have "\<not> matches u d" "\<not> matches u (set_fields d rec)"
    by (auto simp: matches_def date_of_set_fields)
  with Some show ?thesis unfolding c c' by (simp add: update_one_fst)
qed

lemma update_one_agrees:
  assumes "map_of rec ''date'' = Some v" "distinct (map date_of c)"
    "d \<in> set (fst (update_one (c, s) (v, rec)))" "matches v d"
  shows "agrees d rec"
proof (cases "update_first v rec c")
  case None
  then have no: "\<forall>x \<in> set c. \<not> matches v x" by (simp add: update_first_None)
  from assms(3) None have "d \<in> set (c @ [set_fields [(''date'', v)] rec])"
    unfolding update_one_fst by simp
  then have "d \<in> set c \<or> d = set_fields [(''date'', v)] rec" by auto
  with no assms(4) have "d = set_fields [(''date'', v)] rec" by blast
  then show ?thesis using agrees_set_fields by blast
next
  case (Some c')
  from update_first_split [OF Some] obtain pre d0 post where
    c: "c = pre @ d0 # post" and pre: "\<forall>x \<in> set pre. \<not> matches v x" and m: "matches v d0"
    and c': "c' = pre @ set_fields d0 rec # post"
    by blast
  have post: "\<forall>x \<in> set post. \<not> matches v x"
  proof
    fix x assume "x \<in> set post"
    then have "date_of x \<in> date_of ` set post" by (rule imageI)
    moreover from assms(2) have "date_of d0 \<notin> date_of ` set post" unfolding c by simp
    ultimately have "date_of x \<noteq> date_of d0" by metis
    with m show "\<not> matches v x" by (simp add: matches_def)
  qed
  from assms(3) Some have "d \<in> set c'" unfolding update_one_fst by simp
  then have "d \<in> set pre \<or> d = set_fields d0 rec \<or> d \<in> set post" unfolding c' by auto
  with pre post assms(4) have "d = set_fields d0 rec" by blast
  then show ?thesis using agrees_set_fields by blast
qed

lemma has_date: "map_of r ''date'' \<noteq> None \<Longrightarrow> map_of r ''date'' = Some (date_of r)"
  by (auto simp: date_of_def get_def)

lemma operations_total:
  "\<forall>r \<in> set recs. map_of r ''date'' \<noteq> None \<Longrightarrow> operations recs = Inr (map (\<lambda>r. (date_of r, r)) recs)"
  by (induction recs) (auto simp: has_date)

lemma operations_raises:
  "\<exists>r \<in> set recs. map_of r ''date'' = None \<Longrightarrow> operations recs = Inl KeyError"
proof (induction recs)
  case Nil
  then show ?case by simp
next
  case (Cons a recs)
  show ?case
  proof (cases "map_of a ''date''")
    case None
    then show ?thesis by simp
  next
    case (Some v)
    with Cons.prems have "\<exists>r \<in> set recs. map_of r ''date'' = None" by auto
    from Cons.IH [OF this] Some show ?thesis by simp
  qed
qed

lemma update_one_upserted:
  "upserted (snd (update_one (c, s) (v, rec))) =
     upserted s + (if v \<in> set (map date_of c) then 0 else 1)"
proof (cases "update_first v rec c")
  case None
  then have "v \<notin> set (map date_of c)" by (auto simp: update_first_None matches_def)
  with None show ?thesis by (simp add: update_one_def)
next
  case (Some c')
  from update_first_split [OF Some] obtain pre d post where
    "c = pre @ d # post" "matches v d" by blast
  then have "v \<in> set (map date_of c)" by (auto simp: matches_def)
  with Some show ?thesis by (simp add: update_one_def)
qed

lemma bulk_dates:
  assumes "\<forall>(v, rec) \<in> set ops. map_of rec ''date'' = Some v"
  shows "set (map date_of (fst (foldl update_one (c, s) ops))) = set (map date_of c) \<union> fst ` set ops
       \<and> (distinct (map date_of c) \<longrightarrow> distinct (map date_of (fst (foldl update_one (c, s) ops))))
       \<and> (fst ` set ops \<subseteq> set (map date_of c) \<longrightarrow>
             map date_of (fst (foldl update_one (c, s) ops)) = map date_of c
             \<and> upserted (snd (foldl update_one (c, s) ops)) = upserted s)"
  using assms
proof (induction ops arbitrary: c s)
  case Nil
  then show ?case by simp
next
  case (Cons op ops)
  obtain v rec where op: "op = (v, rec)" by (cases op)
  obtain c1 s1 where st: "update_one (c, s) (v, rec) = (c1, s1)" by (cases "update_one (c, s) (v, rec)")
  from Cons.prems op have wf: "map_of rec ''date'' = Some v"
    and rest: "\<forall>(v, rec) \<in> set ops. map_of rec ''date'' = Some v" by auto
  have d1: "map date_of c1 = (if v \<in> set (map date_of c) then map date_of c else map date_of c @ [v])"
    using update_one_dates [OF wf, of c s] st by simp
  have u1: "upserted s1 = upserted s + (if v \<in> set (map date_of c) then 0 else 1)"
    using update_one_upserted [of c s v rec] st by simp
  note IH = Cons.IH [OF rest, of c1 s1]
  have "foldl update_one (c, s) (op # ops) = foldl update_one (c1, s1) ops"
    using op st by simp
  moreover have "set (map date_of c1) \<union> fst ` set ops = set (map date_of c) \<union> fst ` set (op # ops)"
    using d1 op by auto
  moreover have "distinct (map date_of c) \<longrightarrow> distinct (map date_of c1)"
    using d1 by simp
  moreover have "fst ` set (op # ops) \<subseteq> set (map date_of c) \<longrightarrow>
      fst ` set ops \<subseteq> set (map date_of c1) \<and> map date_of c1 = map date_of c \<and> upserted s1 = upserted s"
    using d1 u1 op by auto
  ultimately show ?case using IH by simp
qed

lemma bulk_other:
  assumes "\<forall>(v, rec) \<in> set ops. map_of rec ''date'' = Some v" "u \<notin> fst ` set ops"
  shows "filter (matches u) (fst (foldl update_one (c, s) ops)) = filter (matches u) c"
  using assms
proof (induction ops arbitrary: c s)
  case Nil
  then show ?case by simp
next
  case (Cons op ops)
  obtain v rec where op: "op = (v, rec)" by (cases op)
  obtain c1 s1 where st: "update_one (c, s) (v, rec) = (c1, s1)" by (cases "update_one (c, s) (v, rec)")
  from Cons.prems op have wf: "map_of rec ''date'' = Some v" and uv: "u \<noteq> v"
    and rest: "\<forall>(v, rec) \<in> set ops. map_of rec ''date'' = Some v" "u \<notin> fst ` set ops" by auto
  from update_one_other [OF wf uv, of c s] st have "filter (matches u) c1 = filter (matches u) c" by simp
  with Cons.IH [OF rest, of c1 s1] op st show ?case by simp
qed

lemma bulk_agrees:
  assumes "\<forall>(v, rec) \<in> set ops. map_of rec ''date'' = Some v" "distinct (map fst ops)"
    "distinct (map date_of c)" "(v, rec) \<in> set ops"
    "d \<in> set (fst (foldl update_one (c, s) ops))" "matches v d"
  shows "agrees d rec"
  using assms
proof (induction ops arbitrary: c s)
  case Nil
  then show ?case by simp
next
  case (Cons op ops)
  obtain v' rec' where op: "op = (v', rec')" by (cases op)
  obtain c1 s1 where st: "update_one (c, s) (v', rec') = (c1, s1)" by (cases "update_one (c, s) (v', rec')")
  from Cons.prems(1) op have wf: "map_of rec' ''date'' = Some v'"
    and rest: "\<forall>(v, rec) \<in> set ops. map_of rec ''date'' = Some v" by auto
  from Cons.prems(2) op have dis: "distinct (map fst ops)" and fresh: "v' \<notin> fst ` set ops" by auto
  have dc1: "distinct (map date_of c1)"
    using update_one_dates [OF wf, of c s] st Cons.prems(3) by simp
  have run: "foldl update_one (c, s) (op # ops) = foldl update_one (c1, s1) ops"
    using op st by simp
  show ?case
  proof (cases "(v, rec) = op")
    case True
    with op have eq: "v' = v" "rec' = rec" by auto
    from Cons.prems(5,6) have "d \<in> set (filter (matches v) (fst (foldl update_one (c1, s1) ops)))"
      unfolding run by simp
    with bulk_other [OF rest, of v c1 s1] fresh eq have "d \<in> set (filter (matches v) c1)" by simp
    then have "d \<in> set (fst (update_one (c, s) (v, rec)))" using st eq by simp
    from update_one_agrees [OF _ Cons.prems(3) this Cons.prems(6)] wf eq show ?thesis by simp
  next
    case False
    with Cons.prems(4) have "(v, rec) \<in> set ops" by simp
    from Cons.IH [OF rest dis dc1 this _ Cons.prems(6), of s1] Cons.prems(5) run show ?thesis by simp
  qed
qed

lemma set_fields_same:
  "distinct (map fst rec) \<Longrightarrow> agrees d rec \<Longrightarrow> set_fields d rec = d"
proof (induction rec)
  case Nil
  then show ?case by (simp add: set_fields_def)
next
  case (Cons a rec)
  obtain k x where a: "a = (k, x)" by (cases a)
  from Cons.prems a have k: "k \<notin> fst ` set rec" and dis: "distinct (map fst rec)" by auto
  have "agrees d rec"
    unfolding agrees_def
  proof (intro allI impI)
    fix k' x' assume s: "map_of rec k' = Some x'"
    then have "k' \<in> fst ` set rec" by (metis map_of_eq_None_iff option.distinct(1))
    with k have "k' \<noteq> k" by auto
    with s a have "map_of (a # rec) k' = Some x'" by simp
    with Cons.prems(2) show "map_of d k' = Some x'" by (simp add: agrees_def)
  qed
  from Cons.IH [OF dis this] have same: "AList.merge d rec = d" by (simp add: set_fields_def)
  from Cons.prems(2) a have "map_of d k = Some x" by (simp add: agrees_def)
  then have "AList.update k x d = d" by (rule update_triv)
  with same a show ?case by (simp add: set_fields_def)
qed

lemma update_first_same:
  assumes "\<exists>d \<in> set c. matches v d" "\<forall>d \<in> set c. matches v d \<longrightarrow> agrees d rec" "distinct (map fst rec)"
  shows "update_first v rec c = Some c"
  using assms(1,2)
proof (induction c)
  case Nil
  then show ?case by simp
next
  case (Cons a c)
  show ?case
  proof (cases "matches v a")
    case True
    with Cons.prems(2) have "agrees a rec" by simp
    from set_fields_same [OF assms(3) this] True show ?thesis by simp
  next
    case False
    with Cons.prems have "\<exists>d \<in> set c. matches v d" "\<forall>d \<in> set c. matches v d \<longrightarrow> agrees d rec" by auto
    from Cons.IH [OF this] False show ?thesis by simp
  qed
qed

lemma bulk_same:
  assumes "\<forall>(v, rec) \<in> set ops. (\<exists>d \<in> set c. matches v d)
              \<and> (\<forall>d \<in> set c. matches v d \<longrightarrow> agrees d rec) \<and> distinct (map fst rec)"
  shows "foldl update_one (c, s) ops = (c, s)"
  using assms
proof (induction ops)
  case Nil
  then show ?case by simp
next
  case (Cons op ops)
  obtain v rec where op: "op = (v, rec)" by (cases op)
  from Cons.prems op have "\<exists>d \<in> set c. matches v d" "\<forall>d \<in> set c. matches v d \<longrightarrow> agrees d rec"
    "distinct (map fst rec)" by auto
  from update_first_same [OF this] have "update_one (c, s) (v, rec) = (c, s)"
    by (simp add: update_one_def)
  moreover from Cons.prems have "\<forall>(v, rec) \<in> set ops. (\<exists>d \<in> set c. matches v d)
              \<and> (\<forall>d \<in> set c. matches v d \<longrightarrow> agrees d rec) \<and> distinct (map fst rec)" by simp
  ultimately show ?case using Cons.IH op by simp
qed

lemma count_one:
  "distinct (map f xs) \<Longrightarrow> y \<in> f ` set xs \<Longrightarrow> length (filter (\<lambda>x. f x = y) xs) = 1"
proof (induction xs)
  case Nil
  then show ?case by simp
next
  case (Cons a xs)
  show ?case
  proof (cases "f a = y")
    case True
    with Cons.prems(1) have "y \<notin> f ` set xs" by simp
    then have "\<forall>x \<in> set xs. f x \<noteq> y" by (metis imageI)
    then have "filter (\<lambda>x. f x = y) xs = []" by (simp add: filter_empty_conv)
    with True show ?thesis by simp
  next
    case False
    with Cons show ?thesis by auto
  qed
qed

lemma load_json_dates: "\<forall>r \<in> set (load_json file_data). map_of r ''date'' \<noteq> None"
  by (auto simp: load_json_def truthy_def date_of_def get_def split: option.splits)

lemma upsert_records_distinct:
  assumes "\<forall>r \<in> set recs. map_of r ''date'' \<noteq> None" "distinct (map date_of c)"
  shows "\<exists>c' s. upsert_records c recs = Inr (c', s) \<and> distinct (map date_of c')"
proof (cases "recs = []")
  case True
  with assms(2) show ?thesis by (simp add: upsert_records_def)
next
  case False
  have wf: "\<forall>(v, rec) \<in> set (map (\<lambda>r. (date_of r, r)) recs). map_of rec ''date'' = Some v"
    using assms(1) by (auto simp: has_date)
  from bulk_dates [OF wf, of c "\<lparr>upserted = 0, modified = 0\<rparr>"] assms(2)
  have "distinct (map date_of (fst (bulk_write (map (\<lambda>r. (date_of r, r)) recs) c)))"
    by (simp add: bulk_write_def)
  with False operations_total [OF assms(1)] show ?thesis
    by (cases "bulk_write (map (\<lambda>r. (date_of r, r)) recs) c") (simp add: upsert_records_def)
qed

lemma upload_distinct: "distinct (map date_of c) \<Longrightarrow> distinct (map date_of (upload c file_data))"
  using upsert_records_distinct [OF load_json_dates, of c file_data]
  by (auto simp: upload_def)

lemma stored_distinct: "distinct (map date_of (stored files))"
proof -
  have "distinct (map date_of c) \<Longrightarrow> distinct (map date_of (foldl upload c files))" for c
    by (induction files arbitrary: c) (simp_all add: upload_distinct)
  from this [of "[]"] show ?thesis by (simp add: stored_def)
qed

lemma upsert_records_by_date:
  assumes dates: "\<forall>r \<in> set recs. map_of r ''date'' \<noteq> None" and dc: "distinct (map date_of c)"
  shows "\<exists>c' s. upsert_records c recs = Inr (c', s)
     \<and> distinct (map date_of c')
     \<and> (\<forall>r \<in> set recs. length (filter (matches (date_of r)) c') = 1)
     \<and> (\<forall>u. u \<notin> date_of ` set recs \<longrightarrow> filter (matches u) c' = filter (matches u) c)
     \<and> (\<exists>c'' s'. upsert_records c' recs = Inr (c'', s') \<and> map date_of c'' = map date_of c'
            \<and> upserted s' = 0)
     \<and> (distinct (map date_of recs) \<longrightarrow>
          (\<forall>r \<in> set recs. \<forall>d \<in> set c'. matches (date_of r) d \<longrightarrow> agrees d r)
          \<and> ((\<forall>r \<in> set recs. distinct (map fst r)) \<longrightarrow>
                upsert_records c' recs = Inr (c', \<lparr>upserted = 0, modified = 0\<rparr>)))"
proof (cases "recs = []")
  case True
  with dc show ?thesis by (simp add: upsert_records_def)
next
  case False
  define ops where "ops = map (\<lambda>r. (date_of r, r)) recs"
  define s0 where "s0 = \<lparr>upserted = 0, modified = 0\<rparr>"
  have wf: "\<forall>(v, rec) \<in> set ops. map_of rec ''date'' = Some v"
    using dates by (auto simp: ops_def has_date)
  have keys: "fst ` set ops = date_of ` set recs" by (force simp: ops_def)
  have fsts: "map fst ops = map date_of recs" by (simp add: ops_def comp_def)
  obtain c' s where bw: "foldl update_one (c, s0) ops = (c', s)"
    by (cases "foldl update_one (c, s0) ops")
  have up: "upsert_records c recs = Inr (c', s)"
    using False operations_total [OF dates] bw
    by (simp add: upsert_records_def bulk_write_def ops_def s0_def)
  from bulk_dates [OF wf, of c s0] bw dc keys
  have set': "set (map date_of c') = set (map date_of c) \<union> date_of ` set recs"
    and dc': "distinct (map date_of c')" by simp_all
  have one: "length (filter (matches (date_of r)) c') = 1" if "r \<in> set recs" for r
  proof -
    from that set' have "date_of r \<in> date_of ` set c'" by auto
    have "matches (date_of r) = (\<lambda>x. date_of x = date_of r)" by (rule ext) (simp add: matches_def)
    with count_one [OF dc' \<open>date_of r \<in> date_of ` set c'\<close>] show ?thesis by simp
  qed
  have other: "filter (matches u) c' = filter (matches u) c" if "u \<notin> date_of ` set recs" for u
    using bulk_other [OF wf, of u c s0] that keys bw by simp
  obtain c'' s' where bw2: "foldl update_one (c', s0) ops = (c'', s')"
    by (cases "foldl update_one (c', s0) ops")
  have up2: "upsert_records c' recs = Inr (c'', s')"
    using False operations_total [OF dates] bw2
    by (simp add: upsert_records_def bulk_write_def ops_def s0_def)
  have "fst ` set ops \<subseteq> set (map date_of c')" using set' keys by auto
  with bulk_dates [OF wf, of c' s0] bw2
  have again: "map date_of c'' = map date_of c'" "upserted s' = 0" by (simp_all add: s0_def)
  have agree: "agrees d r"
    if "distinct (map date_of recs)" "r \<in> set recs" "d \<in> set c'" "matches (date_of r) d" for r d
  proof -
    from that(1) fsts have "distinct (map fst ops)" by simp
    moreover from that(2) have "(date_of r, r) \<in> set ops" by (auto simp: ops_def)
    moreover from that(3) bw have "d \<in> set (fst (foldl update_one (c, s0) ops))" by simp
    ultimately show ?thesis using bulk_agrees [OF wf _ dc _ _ that(4)] by blast
  qed
  have fixed: "upsert_records c' recs = Inr (c', s0)"
    if dr: "distinct (map date_of recs)" and dk: "\<forall>r \<in> set recs. distinct (map fst r)"
  proof -
    have "\<forall>(v, rec) \<in> set ops. (\<exists>d \<in> set c'. matches v d)
              \<and> (\<forall>d \<in> set c'. matches v d \<longrightarrow> agrees d rec) \<and> distinct (map fst rec)"
    proof (clarify, intro conjI)
      fix v rec assume "(v, rec) \<in> set ops"
      then have r: "rec \<in> set recs" and v: "v = date_of rec" by (auto simp: ops_def)
      from one [OF r] have "filter (matches v) c' \<noteq> []" unfolding v by auto
      then show "\<exists>d \<in> set c'. matches v d" by (auto simp: filter_empty_conv)
      from agree [OF dr r] show "\<forall>d \<in> set c'. matches v d \<longrightarrow> agrees d rec" unfolding v by blast
      from dk r show "distinct (map fst rec)" by blast
    qed
    from bulk_same [OF this, of s0] False operations_total [OF dates] show ?thesis
      by (simp add: upsert_records_def bulk_write_def ops_def s0_def)
  qed
  from up dc' one other up2 again agree fixed show ?thesis
    unfolding s0_def by blast
qed

text \<open>
  Claim C8, as the code has it. Let the collection hold at most one document per date,
  as every state that the storage script produces does (\<open>stored files\<close>, for any list
  of file contents), and let every record of the list have a \<^verbatim>\<open>date\<close>. Then
  \<^verbatim>\<open>upsert_records\<close> succeeds; afterwards the collection has at most one document per
  date and exactly one for the date of each record, and the documents of the other
  dates are as before. Calling it again with the same list inserts nothing and leaves
  the list of dates as it is. When the records of the list have different dates, the
  document of each date has every field of its record with the record's value (the
  later write wins over what was stored), and a second call with the same list changes
  nothing at all.
\<close>

theorem upsert_records_idempotent_by_date:
  assumes "\<forall>r \<in> set recs. map_of r ''date'' \<noteq> None" and "distinct (map date_of c)"
  shows "distinct (map date_of (stored files))
     \<and> (\<exists>c' s. upsert_records c recs = Inr (c', s)
     \<and> distinct (map date_of c')
     \<and> (\<forall>r \<in> set recs. length (filter (matches (date_of r)) c') = 1)
     \<and> (\<forall>u. u \<notin> date_of ` set recs \<longrightarrow> filter (matches u) c' = filter (matches u) c)
     \<and> (\<exists>c'' s'. upsert_records c' recs = Inr (c'', s') \<and> map date_of c'' = map date_of c'
            \<and> upserted s' = 0)
     \<and> (distinct (map date_of recs) \<longrightarrow>
          (\<forall>r \<in> set recs. \<forall>d \<in> set c'. matches (date_of r) d \<longrightarrow> agrees d r)
          \<and> ((\<forall>r \<in> set recs. distinct (map fst r)) \<longrightarrow>
                upsert_records c' recs = Inr (c', \<lparr>upserted = 0, modified = 0\<rparr>))))"
  using upsert_records_by_date [OF assms] stored_distinct [of files] by (rule conjI [rotated])

theorem upsert_records_idempotent_by_date_witness:
  "upsert_records (stored [[[(''date'', JStr ''2024-01-02''), (''close'', JNum 100), (''volume'', JNum 5)]]])
        [[(''date'', JStr ''2024-01-02''), (''close'', JNum 101)]]
      = Inr ([[(''date'', JStr ''2024-01-02''), (''volume'', JNum 5), (''close'', JNum 101)]],
             \<lparr>upserted = 0, modified = 1\<rparr>)
   \<and> (\<exists>c' s. upsert_records (stored [[[(''date'', JStr ''2024-01-02''), (''close'', JNum 100), (''volume'', JNum 5)]]])
          [[(''date'', JStr ''2024-01-02''), (''close'', JNum 101)]] = Inr (c', s)
        \<and> length (filter (matches (JStr ''2024-01-02'')) c') = 1
        \<and> upsert_records c' [[(''date'', JStr ''2024-01-02''), (''close'', JNum 101)]]
            = Inr (c', \<lparr>upserted = 0, modified = 0\<rparr>))"
proof -
  let ?ra = "[(''date'', JStr ''2024-01-02''), (''close'', JNum 100), (''volume'', JNum 5)]"
  let ?rb = "[(''date'', JStr ''2024-01-02''), (''close'', JNum 101)]"
  have h: "\<forall>r \<in> set [?rb]. map_of r ''date'' \<noteq> None" by simp
  have dc: "distinct (map date_of (stored [[?ra]]))" by code_simp
  have ev: "upsert_records (stored [[?ra]]) [?rb]
      = Inr ([[(''date'', JStr ''2024-01-02''), (''volume'', JNum 5), (''close'', JNum 101)]],
             \<lparr>upserted = 0, modified = 1\<rparr>)"
    by code_simp
  have d: "date_of ?rb = JStr ''2024-01-02''" by (simp add: date_of_def get_def)
  from upsert_records_idempotent_by_date [OF h dc, of "[]"] d h ev show ?thesis
    by simp
qed

text \<open>
  Claim C8 as stated, for every collection state, fails: the script creates no unique
  index on \<^verbatim>\<open>date\<close>, and in a collection that holds two documents of one date
  \<^verbatim>\<open>update_one\<close> reaches the first of them only. Upserting the same record twice leaves
  two documents for that date, the second of them with its old fields.
\<close>

theorem upsert_records_duplicate_dates_stay:
  "upsert_records [[(''date'', JStr ''2024-01-02''), (''close'', JNum 1)],
                   [(''date'', JStr ''2024-01-02''), (''close'', JNum 2)]]
       [[(''date'', JStr ''2024-01-02''), (''close'', JNum 3)]]
     = Inr ([[(''date'', JStr ''2024-01-02''), (''close'', JNum 3)],
             [(''date'', JStr ''2024-01-02''), (''close'', JNum 2)]],
            \<lparr>upserted = 0, modified = 1\<rparr>)
   \<and> upsert_records [[(''date'', JStr ''2024-01-02''), (''close'', JNum 3)],
                     [(''date'', JStr ''2024-01-02''), (''close'', JNum 2)]]
       [[(''date'', JStr ''2024-01-02''), (''close'', JNum 3)]]
     = Inr ([[(''date'', JStr ''2024-01-02''), (''close'', JNum 3)],
             [(''date'', JStr ''2024-01-02''), (''close'', JNum 2)]],
            \<lparr>upserted = 0, modified = 0\<rparr>)
   \<and> length (filter (matches (JStr ''2024-01-02''))
        [[(''date'', JStr ''2024-01-02''), (''close'', JNum 3)],
         [(''date'', JStr ''2024-01-02''), (''close'', JNum 2)]]) = 2"
  by code_simp

section \<open>Properties of the read API\<close>

lemma find_sorted_sorted: "sorted (map (\<lambda>d. bson_key (date_of d)) (find_sorted c desde hasta))"
  by (simp add: find_sorted_def)

lemma find_sorted_set:
  "set (find_sorted c desde hasta) = AList.delete ''_id'' ` {d \<in> set c. in_query desde hasta d}"
  by (auto simp: find_sorted_def)

lemma bson_key_strings: "bson_key (JStr a) \<le> bson_key (JStr b) \<longleftrightarrow> a \<le> b"
  by (simp add: bson_key_def)

lemma listed_iff: "name \<in> set (list_collection_names db) \<longleftrightarrow> map_of db name \<noteq> None"
  by (simp add: list_collection_names_def map_of_eq_None_iff)

text \<open>
  Claim C9, as the code has it. For every request \<^verbatim>\<open>GET /historicos/{mnemonic}\<close> that
  reaches the handler (a path segment other than \<^verbatim>\<open>mnemonics\<close>, and no limit or a limit
  of at least 1): when no collection is listed for the mnemonic the handler raises the
  404 exception; otherwise it returns a response whose records are documents of the
  collection that satisfy the date filter, in ascending order of \<^verbatim>\<open>date\<close> (for string
  dates, in the order of the strings), cut to the limit given, to 100 when neither a
  limit nor a date bound is given, and not cut when only date bounds are given; when no
  document is in the range the data list is empty and no error is raised.
\<close>

theorem get_historico_not_found_or_sorted:
  assumes "limit = None \<or> (\<exists>n. limit = Some n \<and> 1 \<le> n)" and "mnem \<noteq> ''mnemonics''"
  shows "(collection_name py mnem \<notin> set (list_collection_names db) \<longrightarrow>
            get_one_segment py db mnem desde hasta limit
              = Inl (HTTPException 404 (not_found_detail py mnem)))
     \<and> (collection_name py mnem \<in> set (list_collection_names db) \<longrightarrow>
          (\<exists>c resp. map_of db (collection_name py mnem) = Some c
             \<and> get_one_segment py db mnem desde hasta limit = Inr (Historico resp)
             \<and> sorted (map (\<lambda>d. bson_key (date_of d)) (resp_data resp))
             \<and> (\<forall>i j a b. i < j \<longrightarrow> j < length (resp_data resp) \<longrightarrow>
                   date_of (resp_data resp ! i) = JStr a \<longrightarrow> date_of (resp_data resp ! j) = JStr b \<longrightarrow> a \<le> b)
             \<and> set (resp_data resp) \<subseteq> AList.delete ''_id'' ` {d \<in> set c. in_query desde hasta d}
             \<and> resp_total resp = length (resp_data resp)
             \<and> (\<forall>n. limit = Some n \<longrightarrow> resp_data resp = take (nat n) (find_sorted c desde hasta))
             \<and> (limit = None \<longrightarrow> given desde \<or> given hasta \<longrightarrow> resp_data resp = find_sorted c desde hasta)
             \<and> (limit = None \<longrightarrow> \<not> (given desde \<or> given hasta) \<longrightarrow>
                   resp_data resp = take 100 (find_sorted c desde hasta))
             \<and> ((\<forall>d \<in> set c. \<not> in_query desde hasta d) \<longrightarrow> resp_data resp = [])))"
proof (intro conjI impI)
  have ok: "\<not> (case limit of None \<Rightarrow> False | Some n \<Rightarrow> n < 1)"
    using assms(1) by auto
  assume "collection_name py mnem \<notin> set (list_collection_names db)"
  then have "map_of db (collection_name py mnem) = None" by (simp add: listed_iff)
  with ok assms(2) show "get_one_segment py db mnem desde hasta limit
      = Inl (HTTPException 404 (not_found_detail py mnem))"
    by (simp add: get_one_segment_def get_historico_def)
next
  assume "collection_name py mnem \<in> set (list_collection_names db)"
  then obtain c where c: "map_of db (collection_name py mnem) = Some c"
    by (auto simp: listed_iff)
  define eff where "eff = (case limit of Some n \<Rightarrow> Some n
                        | None \<Rightarrow> if given desde \<or> given hasta then None else Some (100 :: int))"
  define recs where "recs = (case eff of None \<Rightarrow> find_sorted c desde hasta
                        | Some n \<Rightarrow> take (nat n) (find_sorted c desde hasta))"
  define resp where "resp = \<lparr>resp_mnemonic = upper py mnem, resp_total = length recs,
                         resp_desde = desde, resp_hasta = hasta, resp_data = recs\<rparr>"
  have ok: "\<not> (case limit of None \<Rightarrow> False | Some n \<Rightarrow> n < 1)"
    using assms(1) by auto
  have "get_historico py db mnem desde hasta limit = Inr resp"
    unfolding get_historico_def using ok c
    by (simp add: Let_def resp_def recs_def eff_def)
  with assms(2) have g: "get_one_segment py db mnem desde hasta limit = Inr (Historico resp)"
    by (simp add: get_one_segment_def)
  have tk: "\<exists>k. recs = take k (find_sorted c desde hasta)"
    unfolding recs_def by (cases eff) (auto intro: exI [of _ "length (find_sorted c desde hasta)"])
  then obtain k where k: "recs = take k (find_sorted c desde hasta)" by blast
  have srt: "sorted (map (\<lambda>d. bson_key (date_of d)) recs)"
    unfolding k take_map [symmetric] using find_sorted_sorted [of c desde hasta]
    by (rule sorted_wrt_take)
  have str: "a \<le> b" if "i < j" "j < length recs" "date_of (recs ! i) = JStr a" "date_of (recs ! j) = JStr b"
    for i j a b
  proof -
    from srt that(1,2) have "map (\<lambda>d. bson_key (date_of d)) recs ! i \<le> map (\<lambda>d. bson_key (date_of d)) recs ! j"
      by (intro sorted_nth_mono) simp_all
    with that have "bson_key (JStr a) \<le> bson_key (JStr b)" by simp
    then show ?thesis by (simp add: bson_key_strings)
  qed
  have sub: "set recs \<subseteq> AList.delete ''_id'' ` {d \<in> set c. in_query desde hasta d}"
    unfolding k using set_take_subset [of k "find_sorted c desde hasta"] find_sorted_set [of c desde hasta]
    by simp
  have lim: "recs = take (nat n) (find_sorted c desde hasta)" if "limit = Some n" for n
    using that by (simp add: recs_def eff_def)
  have all: "recs = find_sorted c desde hasta" if "limit = None" "given desde \<or> given hasta"
    using that by (simp add: recs_def eff_def)
  have dflt: "recs = take 100 (find_sorted c desde hasta)" if "limit = None" "\<not> (given desde \<or> given hasta)"
    using that by (simp add: recs_def eff_def)
  have emp: "recs = []" if "\<forall>d \<in> set c. \<not> in_query desde hasta d"
  proof -
    from that have "{d \<in> set c. in_query desde hasta d} = {}" by blast
    with sub have "set recs \<subseteq> {}" by simp
    then show ?thesis by simp
  qed
  have "resp_data resp = recs" "resp_total resp = length recs" by (simp_all add: resp_def)
  with c g srt str sub lim all dflt emp
  show "\<exists>c resp. map_of db (collection_name py mnem) = Some c
             \<and> get_one_segment py db mnem desde hasta limit = Inr (Historico resp)
             \<and> sorted (map (\<lambda>d. bson_key (date_of d)) (resp_data resp))
             \<and> (\<forall>i j a b. i < j \<longrightarrow> j < length (resp_data resp) \<longrightarrow>
                   date_of (resp_data resp ! i) = JStr a \<longrightarrow> date_of (resp_data resp ! j) = JStr b \<longrightarrow> a \<le> b)
             \<and> set (resp_data resp) \<subseteq> AList.delete ''_id'' ` {d \<in> set c. in_query desde hasta d}
             \<and> resp_total resp = length (resp_data resp)
             \<and> (\<forall>n. limit = Some n \<longrightarrow> resp_data resp = take (nat n) (find_sorted c desde hasta))
             \<and> (limit = None \<longrightarrow> given desde \<or> given hasta \<longrightarrow> resp_data resp = find_sorted c desde hasta)
             \<and> (limit = None \<longrightarrow> \<not> (given desde \<or> given hasta) \<longrightarrow>
                   resp_data resp = take 100 (find_sorted c desde hasta))
             \<and> ((\<forall>d \<in> set c. \<not> in_query desde hasta d) \<longrightarrow> resp_data resp = [])"
    by (intro exI [of _ c] exI [of _ resp]) simp
qed

theorem get_historico_not_found_or_sorted_witness:
  "get_one_segment ascii
      [(''historico_ecopetrol'',
         [[(''date'', JStr ''2024-01-03''), (''close'', JNum 2)],
          [(''date'', JStr ''2024-01-02''), (''close'', JNum 1)]])]
      ''xyz'' None None None
     = Inl (HTTPException 404 (not_found_detail ascii ''xyz''))
   \<and> get_one_segment ascii
      [(''historico_ecopetrol'',
         [[(''date'', JStr ''2024-01-03''), (''close'', JNum 2)],
          [(''date'', JStr ''2024-01-02''), (''close'', JNum 1)]])]
      ''Ecopetrol'' (Some ''2024-01-01'') (Some ''2024-12-31'') None
     = Inr (Historico \<lparr>resp_mnemonic = ''ECOPETROL'', resp_total = 2,
              resp_desde = Some ''2024-01-01'', resp_hasta = Some ''2024-12-31'',
              resp_data = [[(''date'', JStr ''2024-01-02''), (''close'', JNum 1)],
                           [(''date'', JStr ''2024-01-03''), (''close'', JNum 2)]]\<rparr>)
   \<and> map_sum id without_echo (get_one_segment ascii
      [(''historico_ecopetrol'',
         [[(''date'', JStr ''2024-01-03''), (''close'', JNum 2)],
          [(''date'', JStr ''2024-01-02''), (''close'', JNum 1)]])]
      ''Ecopetrol'' (Some ''2025-01-01'') None None)
     = Inr (Historico \<lparr>resp_mnemonic = [], resp_total = 0,
              resp_desde = Some ''2025-01-01'', resp_hasta = None, resp_data = []\<rparr>)"
proof -
  let ?db = "[(''historico_ecopetrol'',
         [[(''date'', JStr ''2024-01-03''), (''close'', JNum 2)],
          [(''date'', JStr ''2024-01-02''), (''close'', JNum 1)]])]"
  have h: "(None :: int option) = None \<or> (\<exists>n. (None :: int option) = Some n \<and> 1 \<le> n)" by simp
  have m: "''xyz'' \<noteq> ''mnemonics''" by simp
  have n: "collection_name ascii ''xyz'' \<notin> set (list_collection_names ?db)" by code_simp
  from get_historico_not_found_or_sorted [OF h m, of ascii ?db None None] n
  have a: "get_one_segment ascii ?db ''xyz'' None None None
      = Inl (HTTPException 404 (not_found_detail ascii ''xyz''))"
    by blast
  have b: "get_one_segment ascii ?db ''Ecopetrol'' (Some ''2024-01-01'') (Some ''2024-12-31'') None
     = Inr (Historico \<lparr>resp_mnemonic = ''ECOPETROL'', resp_total = 2,
              resp_desde = Some ''2024-01-01'', resp_hasta = Some ''2024-12-31'',
              resp_data = [[(''date'', JStr ''2024-01-02''), (''close'', JNum 1)],
                           [(''date'', JStr ''2024-01-03''), (''close'', JNum 2)]]\<rparr>)"
    by code_simp
  have c: "map_sum id without_echo
        (get_one_segment ascii ?db ''Ecopetrol'' (Some ''2025-01-01'') None None)
     = Inr (Historico \<lparr>resp_mnemonic = [], resp_total = 0,
              resp_desde = Some ''2025-01-01'', resp_hasta = None, resp_data = []\<rparr>)"
    by code_simp
  from a b c show ?thesis by blast
qed

text \<open>
  Claim C9 as stated fails on two requests. With neither a limit nor a date bound the
  handler cuts the answer to 100 records: of 101 stored documents, all matching, 100
  are returned. A limit below 1 is rejected with status 422 before the handler looks
  for the collection: no collection exists for the mnemonic and the answer is not 404.
\<close>

theorem get_historico_default_cut_and_invalid_limit:
  "length (find_sorted (replicate 101 [(''date'', JStr ''2024-01-02'')]) None None) = 101
   \<and> map_sum id resp_total
        (get_historico ascii [(''historico_isa'', replicate 101 [(''date'', JStr ''2024-01-02'')])]
           ''isa'' None None None) = Inr 100
   \<and> collection_name ascii ''isa'' \<notin> set (list_collection_names [])
   \<and> get_one_segment ascii [] ''isa'' None None (Some 0) = Inl RequestValidationError
   \<and> status_code RequestValidationError = 422"
proof -
  have cn: "collection_name ascii ''isa'' = ''historico_isa''" by code_simp
  have q: "in_query None None = (\<lambda>d. True)" by (rule ext) (simp add: in_query_def given_def)
  have l: "length (find_sorted (replicate 101 [(''date'', JStr ''2024-01-02'')]) None None) = 101"
    by (simp add: find_sorted_def q)
  have a: "map_sum id resp_total
        (get_historico ascii [(''historico_isa'', replicate 101 [(''date'', JStr ''2024-01-02'')])]
           ''isa'' None None None) = Inr 100"
    unfolding get_historico_def cn by (simp add: given_def Let_def l)
  have b: "get_one_segment ascii [] ''isa'' None None (Some 0) = Inl RequestValidationError"
    by (simp add: get_one_segment_def get_historico_def)
  from l a b show ?thesis by (simp add: list_collection_names_def status_code_def)
qed

text \<open>
  Claim C10, as the code has it. Let two mnemonics have the same \<^verbatim>\<open>str.lower()\<close>. Then
  they name the same collection. When neither is the path segment \<^verbatim>\<open>mnemonics\<close>, the two
  requests \<^verbatim>\<open>GET /historicos/{mnemonic}\<close> are answered alike, whatever the database and
  the other parameters: both with an error of the same status, or both with the same
  records, total and bounds; and so are the two requests
  \<^verbatim>\<open>GET /historicos/{mnemonic}/{date}\<close>, for every mnemonic. The mnemonic in the body of
  \<^verbatim>\<open>get_historico\<close> is \<^verbatim>\<open>mnemonic.upper()\<close>.
\<close>

theorem historico_mnemonic_case_insensitive:
  assumes "lower py m1 = lower py m2"
  shows "collection_name py m1 = collection_name py m2
     \<and> (m1 \<noteq> ''mnemonics'' \<longrightarrow> m2 \<noteq> ''mnemonics'' \<longrightarrow>
          outcome (get_one_segment py db m1 desde hasta limit)
            = outcome (get_one_segment py db m2 desde hasta limit))
     \<and> map_sum status_code id (get_historico_by_date py db m1 day_str)
          = map_sum status_code id (get_historico_by_date py db m2 day_str)
     \<and> (\<forall>resp. get_historico py db m1 desde hasta limit = Inr resp \<longrightarrow>
            resp_mnemonic resp = upper py m1)"
proof -
  from assms have cn: "collection_name py m1 = collection_name py m2"
    by (simp add: collection_name_def)
  have g: "outcome (get_one_segment py db m1 desde hasta limit)
            = outcome (get_one_segment py db m2 desde hasta limit)"
    if "m1 \<noteq> ''mnemonics''" "m2 \<noteq> ''mnemonics''"
    using that unfolding outcome_def get_one_segment_def get_historico_def cn
    by (simp add: Let_def without_echo_def status_code_def split: option.splits)
  have b: "map_sum status_code id (get_historico_by_date py db m1 day_str)
          = map_sum status_code id (get_historico_by_date py db m2 day_str)"
    unfolding get_historico_by_date_def cn
    by (simp add: status_code_def split: option.splits)
  have e: "resp_mnemonic resp = upper py m1"
    if "get_historico py db m1 desde hasta limit = Inr resp" for resp
    using that by (auto simp: get_historico_def Let_def split: if_splits option.splits)
  from cn g b e show ?thesis by blast
qed

theorem historico_mnemonic_case_insensitive_witness:
  "lower ascii ''ECOPETROL'' = lower ascii ''ecoPetrol''
   \<and> outcome (get_one_segment ascii
        [(''historico_ecopetrol'', [[(''date'', JStr ''2024-01-02''), (''close'', JNum 1)]])]
        ''ECOPETROL'' None None None)
     = outcome (get_one_segment ascii
        [(''historico_ecopetrol'', [[(''date'', JStr ''2024-01-02''), (''close'', JNum 1)]])]
        ''ecoPetrol'' None None None)
   \<and> map_sum id resp_mnemonic (get_historico ascii
        [(''historico_ecopetrol'', [[(''date'', JStr ''2024-01-02''), (''close'', JNum 1)]])]
        ''ecoPetrol'' None None None) = Inr ''ECOPETROL''"
proof -
  have h: "lower ascii ''ECOPETROL'' = lower ascii ''ecoPetrol''" by code_simp
  have n: "''ECOPETROL'' \<noteq> ''mnemonics''" "''ecoPetrol'' \<noteq> ''mnemonics''" by simp_all
  have e: "map_sum id resp_mnemonic (get_historico ascii
        [(''historico_ecopetrol'', [[(''date'', JStr ''2024-01-02''), (''close'', JNum 1)]])]
        ''ecoPetrol'' None None None) = Inr ''ECOPETROL''"
    by code_simp
  from historico_mnemonic_case_insensitive [OF h] h n e show ?thesis by blast
qed

text \<open>
  Claim C10 as stated fails for the mnemonic \<^verbatim>\<open>mnemonics\<close>: the route \<^verbatim>\<open>/mnemonics\<close> is
  matched first and exactly, so \<^verbatim>\<open>GET /historicos/mnemonics\<close> lists the mnemonics of the
  database, while \<^verbatim>\<open>GET /historicos/MNEMONICS\<close> returns the records of the collection
  \<^verbatim>\<open>historico_mnemonics\<close>.
\<close>

theorem historico_mnemonics_segment_case_sensitive:
  "lower ascii ''mnemonics'' = lower ascii ''MNEMONICS''
   \<and> get_one_segment ascii
        [(''historico_mnemonics'', [[(''date'', JStr ''2024-01-02''), (''close'', JNum 1)]])]
        ''MNEMONICS'' None None None
     = Inr (Historico \<lparr>resp_mnemonic = ''MNEMONICS'', resp_total = 1, resp_desde = None,
              resp_hasta = None,
              resp_data = [[(''date'', JStr ''2024-01-02''), (''close'', JNum 1)]]\<rparr>)
   \<and> get_one_segment ascii
        [(''historico_mnemonics'', [[(''date'', JStr ''2024-01-02''), (''close'', JNum 1)]])]
        ''mnemonics'' None None None
     = Inr (Mnemonics [''MNEMONICS''])"
  by code_simp

end
